theory Spec2Isabelle
  imports Complex_Main "HOL-Library.Stream" "HOL-Library.Multiset" "HOL-Library.Sublist"
begin

section \<open>Constants of \<^verbatim>\<open>skip_list.hpp\<close>\<close>

definition MAX_LEVEL :: nat where
  "MAX_LEVEL = 32"

definition P :: real where
  "P = 0.25"

section \<open>Nodes, the heap and faults\<close>

text \<open>
  A \<^verbatim>\<open>SkipListNode<T>\<close> holds a value, a vector of forward pointers and its level.
  A \<^verbatim>\<open>std::shared_ptr<Node>\<close> is an address into the heap or null: \<open>nat option\<close>.
  The heap is the list of all nodes ever allocated; the address of a node is its index.
  Nodes are never removed from the heap: a shared pointer keeps its node alive for as long
  as anything (a predecessor, the container, an iterator) refers to it, and what nothing
  refers to cannot be observed.
\<close>

record 'a SkipListNode =
  node_value :: 'a
  forward :: "nat option list"
  level :: nat

type_synonym 'a heap = "'a SkipListNode list"

text \<open>
  The exception of the iterator is \<open>RuntimeError\<close>. The other three are undefined
  behaviour in C++: dereferencing a null pointer, indexing a vector out of range, and
  (impossible with shared pointers, kept so that the model is total) following an address
  that no node has.
\<close>

datatype fault = RuntimeError string | NullDeref | OutOfRange | Dangling

text \<open>
  A call that returns yields \<open>Inr\<close> its result or \<open>Inl\<close> a fault. A call that contains
  a \<^verbatim>\<open>while\<close> loop over the links may not return at all: its result is an option, with
  \<open>None\<close> for a loop that runs forever.
\<close>

definition bind_e :: "fault + 'a \<Rightarrow> ('a \<Rightarrow> fault + 'b) \<Rightarrow> fault + 'b" where
  "bind_e m f = (case m of Inl e \<Rightarrow> Inl e | Inr x \<Rightarrow> f x)"

definition bind_r :: "(fault + 'a) option \<Rightarrow> ('a \<Rightarrow> (fault + 'b) option) \<Rightarrow> (fault + 'b) option" where
  "bind_r m f = (case m of None \<Rightarrow> None | Some (Inl e) \<Rightarrow> Some (Inl e) | Some (Inr x) \<Rightarrow> f x)"

text \<open>The constructors \<^verbatim>\<open>SkipListNode(val, lvl)\<close>: \<^verbatim>\<open>forward.resize(lvl + 1)\<close>.\<close>

definition SkipListNode_new :: "'a \<Rightarrow> nat \<Rightarrow> 'a SkipListNode" where
  "SkipListNode_new v lvl = \<lparr>node_value = v, forward = replicate (lvl + 1) None, level = lvl\<rparr>"

text \<open>\<^verbatim>\<open>std::make_shared<Node>(...)\<close>: the new node gets the next free address.\<close>

definition make_shared :: "'a heap \<Rightarrow> 'a SkipListNode \<Rightarrow> 'a heap \<times> nat" where
  "make_shared h n = (h @ [n], length h)"

text \<open>\<^verbatim>\<open>*p\<close> for a non-null pointer \<open>p\<close>.\<close>

definition node_at :: "'a heap \<Rightarrow> nat \<Rightarrow> fault + 'a SkipListNode" where
  "node_at h a = (if a < length h then Inr (h ! a) else Inl Dangling)"

text \<open>\<^verbatim>\<open>p->forward[i]\<close>, read.\<close>

definition forward_at :: "'a heap \<Rightarrow> nat \<Rightarrow> nat \<Rightarrow> fault + nat option" where
  "forward_at h a i =
     (if a < length h then
        (if i < length (forward (h ! a)) then Inr (forward (h ! a) ! i) else Inl OutOfRange)
      else Inl Dangling)"

text \<open>\<^verbatim>\<open>p->forward[i] = q\<close>.\<close>

definition set_forward :: "'a heap \<Rightarrow> nat \<Rightarrow> nat \<Rightarrow> nat option \<Rightarrow> fault + 'a heap" where
  "set_forward h a i q =
     (if a < length h then
        (if i < length (forward (h ! a))
         then Inr (h[a := (h ! a)\<lparr>forward := (forward (h ! a))[i := q]\<rparr>])
         else Inl OutOfRange)
      else Inl Dangling)"

section \<open>The iterator\<close>

text \<open>
  A \<^verbatim>\<open>SkipListIterator\<close> is its one field \<^verbatim>\<open>current_\<close>: a node pointer or null. The
  default-constructed iterator and \<^verbatim>\<open>end()\<close> are both the null pointer.
\<close>

type_synonym iterator = "nat option"

definition iterator_default :: iterator where
  "iterator_default = None"

definition iter_deref :: "'a heap \<Rightarrow> iterator \<Rightarrow> fault + 'a" where
  "iter_deref h it =
     (case it of
        None \<Rightarrow> Inl (RuntimeError ''Dereferencing null iterator'')
      | Some a \<Rightarrow> bind_e (node_at h a) (\<lambda>n. Inr (node_value n)))"

definition iter_arrow :: "'a heap \<Rightarrow> iterator \<Rightarrow> fault + 'a" where
  "iter_arrow h it =
     (case it of
        None \<Rightarrow> Inl (RuntimeError ''Accessing null iterator'')
      | Some a \<Rightarrow> bind_e (node_at h a) (\<lambda>n. Inr (node_value n)))"

text \<open>\<^verbatim>\<open>operator++\<close>: the new value of \<^verbatim>\<open>current_\<close>.\<close>

definition iter_incr :: "'a heap \<Rightarrow> iterator \<Rightarrow> fault + iterator" where
  "iter_incr h it =
     (case it of
        None \<Rightarrow> Inr None
      | Some a \<Rightarrow>
          bind_e (node_at h a) (\<lambda>n. if forward n \<noteq> [] then Inr (forward n ! 0) else Inr None))"

definition iter_eq :: "iterator \<Rightarrow> iterator \<Rightarrow> bool" where
  "iter_eq a b = (a = b)"

section \<open>The container\<close>

text \<open>
  The fields of \<^verbatim>\<open>skip_list\<close>: \<^verbatim>\<open>head_\<close>, \<^verbatim>\<open>size_\<close>, \<^verbatim>\<open>max_level_\<close>, \<^verbatim>\<open>comp_\<close> and
  \<^verbatim>\<open>gen_\<close>, here \<open>sl_head\<close>, \<open>sl_size\<close>, \<open>sl_max_level\<close>, \<open>sl_comp\<close> and \<open>sl_gen\<close>
  (a name of Isabelle cannot end with an underscore). The generator \<^verbatim>\<open>gen_\<close> with its distribution
  \<^verbatim>\<open>dist_\<close> is the stream of the values that the successive calls \<^verbatim>\<open>dist_(gen_)\<close> will
  return. The allocator \<^verbatim>\<open>alloc_\<close> is stored and never used to allocate; it is left out.
  \<^verbatim>\<open>size_\<close> and \<^verbatim>\<open>max_level_\<close> are natural numbers: \<^verbatim>\<open>max_level_\<close> never exceeds
  \<open>MAX_LEVEL - 1\<close>, and \<^verbatim>\<open>size_\<close> counts allocated nodes, which do not reach \<open>2^64\<close>.
\<close>

record 'a skip_list =
  sl_head :: "nat option"
  sl_size :: nat
  sl_max_level :: nat
  sl_comp :: "'a \<Rightarrow> 'a \<Rightarrow> bool"
  sl_gen :: "real stream"

text \<open>
  \<^verbatim>\<open>skip_list(const Compare&, const Allocator&)\<close>. The seed comes from
  \<^verbatim>\<open>std::random_device\<close>, so the stream of draws \<open>g\<close> is an argument, and so is the
  value \<^verbatim>\<open>T{}\<close> stored in the head.
\<close>

definition skip_list_new ::
  "'a heap \<Rightarrow> 'a \<Rightarrow> ('a \<Rightarrow> 'a \<Rightarrow> bool) \<Rightarrow> real stream \<Rightarrow> 'a heap \<times> 'a skip_list" where
  "skip_list_new h dflt cmp g =
     (let (h1, hp) = make_shared h (SkipListNode_new dflt MAX_LEVEL)
      in (h1, \<lparr>sl_head = Some hp, sl_size = 0, sl_max_level = 0, sl_comp = cmp, sl_gen = g\<rparr>))"

text \<open>
  The move constructor \<^verbatim>\<open>skip_list(skip_list&& other)\<close>: the new object and what is left
  of \<open>other\<close>. Moving a shared pointer leaves null behind; moving the generator copies it.
\<close>

definition move_construct :: "'a skip_list \<Rightarrow> 'a skip_list \<times> 'a skip_list" where
  "move_construct other =
     (\<lparr>sl_head = sl_head other, sl_size = sl_size other, sl_max_level = sl_max_level other,
       sl_comp = sl_comp other, sl_gen = sl_gen other\<rparr>,
      other\<lparr>sl_head := None, sl_size := 0, sl_max_level := 0\<rparr>)"

definition begin_sl :: "'a heap \<Rightarrow> 'a skip_list \<Rightarrow> fault + iterator" where
  "begin_sl h s = (case sl_head s of None \<Rightarrow> Inl NullDeref | Some hp \<Rightarrow> forward_at h hp 0)"

definition end_sl :: "'a skip_list \<Rightarrow> iterator" where
  "end_sl s = None"

definition empty_sl :: "'a skip_list \<Rightarrow> bool" where
  "empty_sl s = (sl_size s = 0)"

definition size_sl :: "'a skip_list \<Rightarrow> nat" where
  "size_sl s = sl_size s"

text \<open>
  \<^verbatim>\<open>clear()\<close>: \<^verbatim>\<open>head_->forward.clear(); head_->forward.resize(MAX_LEVEL);\<close> and the
  two counters reset.
\<close>

definition clear :: "'a heap \<Rightarrow> 'a skip_list \<Rightarrow> fault + ('a heap \<times> 'a skip_list)" where
  "clear h s =
     (case sl_head s of
        None \<Rightarrow> Inl NullDeref
      | Some hp \<Rightarrow>
          if hp < length h
          then Inr (h[hp := (h ! hp)\<lparr>forward := replicate MAX_LEVEL None\<rparr>],
                    s\<lparr>sl_size := 0, sl_max_level := 0\<rparr>)
          else Inl Dangling)"

text \<open>\<^verbatim>\<open>swap(other)\<close>: every field is exchanged.\<close>

definition swap_sl :: "'a skip_list \<Rightarrow> 'a skip_list \<Rightarrow> 'a skip_list \<times> 'a skip_list" where
  "swap_sl s other = (other, s)"

text \<open>
  Move assignment \<^verbatim>\<open>*this = std::move(other)\<close> for two different objects (for
  \<^verbatim>\<open>this == &other\<close> nothing happens): \<^verbatim>\<open>clear()\<close>, then the fields are taken over.
\<close>

definition move_assign ::
  "'a heap \<Rightarrow> 'a skip_list \<Rightarrow> 'a skip_list \<Rightarrow> fault + ('a heap \<times> 'a skip_list \<times> 'a skip_list)" where
  "move_assign h s other =
     bind_e (clear h s) (\<lambda>(h1, s1).
       Inr (h1,
            s1\<lparr>sl_head := sl_head other, sl_size := sl_size other, sl_max_level := sl_max_level other,
               sl_comp := sl_comp other, sl_gen := sl_gen other\<rparr>,
            other\<lparr>sl_head := None, sl_size := 0, sl_max_level := 0\<rparr>))"

section \<open>The level generator\<close>

text \<open>
  \<^verbatim>\<open>while (dist_(gen_) < P && level < MAX_LEVEL - 1) ++level;\<close> The draw comes first in
  the condition, so every test of the condition consumes one draw.
\<close>

function random_level_loop :: "real stream \<Rightarrow> nat \<Rightarrow> nat \<times> real stream" where
  "random_level_loop g lvl =
     (if shd g < P \<and> lvl < MAX_LEVEL - 1 then random_level_loop (stl g) (lvl + 1)
      else (lvl, stl g))"
  by pat_completeness auto
termination
  by (relation "measure (\<lambda>(g, lvl). MAX_LEVEL - 1 - lvl)") auto

declare random_level_loop.simps [simp del]

definition random_level :: "real stream \<Rightarrow> nat \<times> real stream" where
  "random_level g = random_level_loop g 0"

section \<open>Searching\<close>

text \<open>
  The inner loop of every search,
  \<^verbatim>\<open>while (current->forward[i] && go(current->forward[i]->value)) current = current->forward[i];\<close>
  where \<open>go v\<close> is \<^verbatim>\<open>comp_(v, key)\<close> in \<^verbatim>\<open>find\<close>, \<^verbatim>\<open>lower_bound\<close> and \<^verbatim>\<open>insert_impl\<close>
  and \<^verbatim>\<open>!comp_(key, v)\<close> in \<^verbatim>\<open>upper_bound\<close>. On a cyclic chain it does not end.
\<close>

partial_function (option) advance ::
  "'a heap \<Rightarrow> ('a \<Rightarrow> bool) \<Rightarrow> nat \<Rightarrow> nat \<Rightarrow> (fault + nat) option" where
  "advance h go i current =
     (case forward_at h current i of
        Inl e \<Rightarrow> Some (Inl e)
      | Inr None \<Rightarrow> Some (Inr current)
      | Inr (Some nxt) \<Rightarrow>
          (case node_at h nxt of
             Inl e \<Rightarrow> Some (Inl e)
           | Inr n \<Rightarrow> if go (node_value n) then advance h go i nxt else Some (Inr current)))"

text \<open>\<^verbatim>\<open>for (int i = max_level_; i >= 0; --i) { while ... }\<close>\<close>

fun descend :: "'a heap \<Rightarrow> ('a \<Rightarrow> bool) \<Rightarrow> nat \<Rightarrow> nat \<Rightarrow> (fault + nat) option" where
  "descend h go 0 current = advance h go 0 current"
| "descend h go (Suc i) current =
     bind_r (advance h go (Suc i) current) (\<lambda>c. descend h go i c)"

text \<open>The same loop with \<^verbatim>\<open>update[i] = current;\<close> after the inner loop (\<^verbatim>\<open>insert_impl\<close>).\<close>

definition set_update :: "nat list \<Rightarrow> nat \<Rightarrow> nat \<Rightarrow> fault + nat list" where
  "set_update update i a = (if i < length update then Inr (update[i := a]) else Inl OutOfRange)"

fun descend_update ::
  "'a heap \<Rightarrow> ('a \<Rightarrow> bool) \<Rightarrow> nat \<Rightarrow> nat \<Rightarrow> nat list \<Rightarrow> (fault + nat \<times> nat list) option" where
  "descend_update h go 0 current update =
     bind_r (advance h go 0 current) (\<lambda>c.
       Some (bind_e (set_update update 0 c) (\<lambda>u. Inr (c, u))))"
| "descend_update h go (Suc i) current update =
     bind_r (advance h go (Suc i) current) (\<lambda>c.
     bind_r (Some (set_update update (Suc i) c)) (\<lambda>u.
       descend_update h go i c u))"

text \<open>
  \<^verbatim>\<open>current && !comp_(key, current->value) && !comp_(current->value, key)\<close>
\<close>

definition is_match :: "'a heap \<Rightarrow> ('a \<Rightarrow> 'a \<Rightarrow> bool) \<Rightarrow> nat option \<Rightarrow> 'a \<Rightarrow> fault + bool" where
  "is_match h cmp current key =
     (case current of
        None \<Rightarrow> Inr False
      | Some a \<Rightarrow>
          bind_e (node_at h a) (\<lambda>n. Inr (\<not> cmp key (node_value n) \<and> \<not> cmp (node_value n) key)))"

text \<open>\<^verbatim>\<open>find\<close> (both overloads) and \<^verbatim>\<open>find_impl\<close> have the same body.\<close>

definition find_impl :: "'a heap \<Rightarrow> 'a skip_list \<Rightarrow> 'a \<Rightarrow> (fault + iterator) option" where
  "find_impl h s key =
     (case sl_head s of
        None \<Rightarrow> Some (Inl NullDeref)
      | Some hp \<Rightarrow>
          bind_r (descend h (\<lambda>v. sl_comp s v key) (sl_max_level s) hp) (\<lambda>c.
          bind_r (Some (forward_at h c 0)) (\<lambda>current.
          bind_r (Some (is_match h (sl_comp s) current key)) (\<lambda>m.
            Some (Inr (if m then current else None))))))"

definition find_sl :: "'a heap \<Rightarrow> 'a skip_list \<Rightarrow> 'a \<Rightarrow> (fault + iterator) option" where
  "find_sl h s key = find_impl h s key"

definition count_sl :: "'a heap \<Rightarrow> 'a skip_list \<Rightarrow> 'a \<Rightarrow> (fault + nat) option" where
  "count_sl h s key =
     bind_r (find_sl h s key) (\<lambda>it. Some (Inr (if \<not> iter_eq it (end_sl s) then 1 else 0)))"

text \<open>\<^verbatim>\<open>lower_bound\<close> (both overloads) and \<^verbatim>\<open>lower_bound_impl\<close>.\<close>

definition lower_bound_impl :: "'a heap \<Rightarrow> 'a skip_list \<Rightarrow> 'a \<Rightarrow> (fault + iterator) option" where
  "lower_bound_impl h s key =
     (case sl_head s of
        None \<Rightarrow> Some (Inl NullDeref)
      | Some hp \<Rightarrow>
          bind_r (descend h (\<lambda>v. sl_comp s v key) (sl_max_level s) hp) (\<lambda>c.
            Some (forward_at h c 0)))"

definition lower_bound :: "'a heap \<Rightarrow> 'a skip_list \<Rightarrow> 'a \<Rightarrow> (fault + iterator) option" where
  "lower_bound h s key = lower_bound_impl h s key"

text \<open>\<^verbatim>\<open>upper_bound\<close> (both overloads) and \<^verbatim>\<open>upper_bound_impl\<close>.\<close>

definition upper_bound_impl :: "'a heap \<Rightarrow> 'a skip_list \<Rightarrow> 'a \<Rightarrow> (fault + iterator) option" where
  "upper_bound_impl h s key =
     (case sl_head s of
        None \<Rightarrow> Some (Inl NullDeref)
      | Some hp \<Rightarrow>
          bind_r (descend h (\<lambda>v. \<not> sl_comp s key v) (sl_max_level s) hp) (\<lambda>c.
            Some (forward_at h c 0)))"

definition upper_bound :: "'a heap \<Rightarrow> 'a skip_list \<Rightarrow> 'a \<Rightarrow> (fault + iterator) option" where
  "upper_bound h s key = upper_bound_impl h s key"

definition equal_range ::
  "'a heap \<Rightarrow> 'a skip_list \<Rightarrow> 'a \<Rightarrow> (fault + iterator \<times> iterator) option" where
  "equal_range h s key =
     bind_r (lower_bound h s key) (\<lambda>lo.
     bind_r (upper_bound h s key) (\<lambda>up.
       Some (Inr (lo, up))))"

section \<open>Insertion\<close>

text \<open>\<^verbatim>\<open>for (size_type i = max_level_ + 1; i <= new_level; ++i) update[i] = head_;\<close>\<close>

fun reset_update :: "nat list \<Rightarrow> nat \<Rightarrow> nat list \<Rightarrow> fault + nat list" where
  "reset_update update hp [] = Inr update"
| "reset_update update hp (i # is) =
     bind_e (set_update update i hp) (\<lambda>u. reset_update u hp is)"

text \<open>
  \<^verbatim>\<open>for (size_type i = 0; i <= new_level; ++i) {
      new_node->forward[i] = update[i]->forward[i];
      update[i]->forward[i] = new_node; }\<close>
  over the list of the levels still to do.
\<close>

fun splice :: "'a heap \<Rightarrow> nat list \<Rightarrow> nat \<Rightarrow> nat list \<Rightarrow> fault + 'a heap" where
  "splice h update new_node [] = Inr h"
| "splice h update new_node (i # is) =
     (if i < length update then
        bind_e (forward_at h (update ! i) i) (\<lambda>nxt.
        bind_e (set_forward h new_node i nxt) (\<lambda>h1.
        bind_e (set_forward h1 (update ! i) i (Some new_node)) (\<lambda>h2.
          splice h2 update new_node is)))
      else Inl OutOfRange)"

text \<open>
  \<^verbatim>\<open>insert_impl\<close>; \<^verbatim>\<open>insert\<close> (both overloads) and \<^verbatim>\<open>emplace\<close> only call it. The result
  is the heap, the container and the pair of iterator and flag. The vector \<^verbatim>\<open>update\<close> is
  filled with \<^verbatim>\<open>head_\<close>, which the first test of the inner loop dereferences.
\<close>

definition insert_impl ::
  "'a heap \<Rightarrow> 'a skip_list \<Rightarrow> 'a \<Rightarrow> (fault + 'a heap \<times> 'a skip_list \<times> iterator \<times> bool) option" where
  "insert_impl h s v =
     (case sl_head s of
        None \<Rightarrow> Some (Inl NullDeref)
      | Some hp \<Rightarrow>
          bind_r (descend_update h (\<lambda>x. sl_comp s x v) (sl_max_level s) hp (replicate MAX_LEVEL hp))
            (\<lambda>(c, update).
          bind_r (Some (forward_at h c 0)) (\<lambda>current.
          bind_r (Some (is_match h (sl_comp s) current v)) (\<lambda>m.
            if m then Some (Inr (h, s, current, False))
            else
              let (new_level, g) = random_level (sl_gen s);
                  s1 = s\<lparr>sl_gen := g\<rparr>
              in
              bind_r (Some (if new_level > sl_max_level s1
                            then bind_e (reset_update update hp [sl_max_level s1 + 1 ..< new_level + 1])
                                   (\<lambda>u. Inr (u, s1\<lparr>sl_max_level := new_level\<rparr>))
                            else Inr (update, s1))) (\<lambda>(update1, s2).
              let (h1, new_node) = make_shared h (SkipListNode_new v new_level) in
              bind_r (Some (splice h1 update1 new_node [0 ..< new_level + 1])) (\<lambda>h2.
                Some (Inr (h2, s2\<lparr>sl_size := sl_size s2 + 1\<rparr>, Some new_node, True))))))))"

definition insert_sl ::
  "'a heap \<Rightarrow> 'a skip_list \<Rightarrow> 'a \<Rightarrow> (fault + 'a heap \<times> 'a skip_list \<times> iterator \<times> bool) option" where
  "insert_sl h s v = insert_impl h s v"

definition emplace ::
  "'a heap \<Rightarrow> 'a skip_list \<Rightarrow> 'a \<Rightarrow> (fault + 'a heap \<times> 'a skip_list \<times> iterator \<times> bool) option" where
  "emplace h s v = insert_sl h s v"


text \<open>
  The initializer-list constructor and every client loop of insertions:
  \<^verbatim>\<open>for (const auto& value : init) insert(value);\<close>
\<close>

fun insert_all :: "'a heap \<Rightarrow> 'a skip_list \<Rightarrow> 'a list \<Rightarrow> (fault + 'a heap \<times> 'a skip_list) option" where
  "insert_all h s [] = Some (Inr (h, s))"
| "insert_all h s (v # vs) = bind_r (insert_sl h s v) (\<lambda>(h1, s1, r). insert_all h1 s1 vs)"

definition skip_list_init ::
  "'a heap \<Rightarrow> 'a list \<Rightarrow> 'a \<Rightarrow> ('a \<Rightarrow> 'a \<Rightarrow> bool) \<Rightarrow> real stream \<Rightarrow> (fault + 'a heap \<times> 'a skip_list) option" where
  "skip_list_init h init dflt cmp g =
     (let (h1, s) = skip_list_new h dflt cmp g in insert_all h1 s init)"




section \<open>Iteration by the clients\<close>

text \<open>
  \<^verbatim>\<open>for (; first != last; ++first) out.push_back(*first);\<close> with the position kept beside
  each value. The range-based \<^verbatim>\<open>for\<close> over a container is this loop from \<^verbatim>\<open>begin()\<close> to
  \<^verbatim>\<open>end()\<close>.
\<close>

partial_function (option) collect ::
  "'a heap \<Rightarrow> iterator \<Rightarrow> iterator \<Rightarrow> (iterator \<times> 'a) list \<Rightarrow>
   (fault + (iterator \<times> 'a) list) option" where
  "collect h first lst out =
     (if iter_eq first lst then Some (Inr out)
      else
        (case iter_deref h first of
           Inl e \<Rightarrow> Some (Inl e)
         | Inr v \<Rightarrow>
             (case iter_incr h first of
                Inl e \<Rightarrow> Some (Inl e)
              | Inr nxt \<Rightarrow> collect h nxt lst (out @ [(first, v)]))))"

definition positions :: "'a heap \<Rightarrow> 'a skip_list \<Rightarrow> (fault + (iterator \<times> 'a) list) option" where
  "positions h s = bind_r (Some (begin_sl h s)) (\<lambda>first. collect h first (end_sl s) [])"

definition to_list :: "'a heap \<Rightarrow> 'a skip_list \<Rightarrow> (fault + 'a list) option" where
  "to_list h s = bind_r (positions h s) (\<lambda>xs. Some (Inr (map snd xs)))"

text \<open>
  The copy constructor: the delegated constructor with the comparator of \<open>other\<close>, then
  \<^verbatim>\<open>for (const auto& value : other) insert(value);\<close>
\<close>

partial_function (option) copy_loop ::
  "'a heap \<Rightarrow> 'a skip_list \<Rightarrow> iterator \<Rightarrow> (fault + 'a heap \<times> 'a skip_list) option" where
  "copy_loop h s it =
     (case it of
        None \<Rightarrow> Some (Inr (h, s))
      | Some a \<Rightarrow>
          (case iter_deref h it of
             Inl e \<Rightarrow> Some (Inl e)
           | Inr v \<Rightarrow>
               (case insert_sl h s v of
                  None \<Rightarrow> None
                | Some (Inl e) \<Rightarrow> Some (Inl e)
                | Some (Inr (h1, s1, r)) \<Rightarrow>
                    (case iter_incr h1 it of
                       Inl e \<Rightarrow> Some (Inl e)
                     | Inr nxt \<Rightarrow> copy_loop h1 s1 nxt))))"

definition copy_construct ::
  "'a heap \<Rightarrow> 'a skip_list \<Rightarrow> 'a \<Rightarrow> real stream \<Rightarrow> (fault + 'a heap \<times> 'a skip_list) option" where
  "copy_construct h other dflt g =
     (let (h1, s) = skip_list_new h dflt (sl_comp other) g
      in bind_r (Some (begin_sl h1 other)) (\<lambda>first. copy_loop h1 s first))"

text \<open>
  Copy assignment for two different objects: \<^verbatim>\<open>skip_list temp(other); swap(temp);\<close>
  The temporary, which now holds the old state of \<^verbatim>\<open>*this\<close>, is destroyed.
\<close>

definition copy_assign ::
  "'a heap \<Rightarrow> 'a skip_list \<Rightarrow> 'a skip_list \<Rightarrow> 'a \<Rightarrow> real stream \<Rightarrow> (fault + 'a heap \<times> 'a skip_list) option" where
  "copy_assign h s other dflt g =
     bind_r (copy_construct h other dflt g) (\<lambda>(h1, temp).
       Some (Inr (h1, fst (swap_sl s temp))))"

section \<open>Comparison of two containers\<close>

text \<open>
  The algorithms of the standard library that the operators call, over the iterators of this
  container. \<^verbatim>\<open>std::equal(first1, last1, first2)\<close> compares with \<^verbatim>\<open>==\<close> of the elements,
  here the equality of HOL:
  \<^verbatim>\<open>for (; first1 != last1; ++first1, ++first2) if (!(*first1 == *first2)) return false;
  return true;\<close>
\<close>

partial_function (option) std_equal ::
  "'a heap \<Rightarrow> iterator \<Rightarrow> iterator \<Rightarrow> iterator \<Rightarrow> (fault + bool) option" where
  "std_equal h first1 last1 first2 =
     (if iter_eq first1 last1 then Some (Inr True)
      else
        (case iter_deref h first1 of
           Inl e \<Rightarrow> Some (Inl e)
         | Inr x \<Rightarrow>
             (case iter_deref h first2 of
                Inl e \<Rightarrow> Some (Inl e)
              | Inr y \<Rightarrow>
                  if \<not> (x = y) then Some (Inr False)
                  else
                    (case iter_incr h first1 of
                       Inl e \<Rightarrow> Some (Inl e)
                     | Inr n1 \<Rightarrow>
                         (case iter_incr h first2 of
                            Inl e \<Rightarrow> Some (Inl e)
                          | Inr n2 \<Rightarrow> std_equal h n1 last1 n2)))))"

text \<open>
  \<^verbatim>\<open>std::lexicographical_compare(first1, last1, first2, last2)\<close> compares with \<^verbatim>\<open><\<close> of
  the elements, the argument \<open>lt\<close>; the comparator of the container plays no part:
  \<^verbatim>\<open>for (; first1 != last1 && first2 != last2; ++first1, ++first2) {
      if (*first1 < *first2) return true;
      if (*first2 < *first1) return false; }
  return first1 == last1 && first2 != last2;\<close>
\<close>

partial_function (option) lexicographical_compare ::
  "('a \<Rightarrow> 'a \<Rightarrow> bool) \<Rightarrow> 'a heap \<Rightarrow> iterator \<Rightarrow> iterator \<Rightarrow> iterator \<Rightarrow> iterator \<Rightarrow> (fault + bool) option" where
  "lexicographical_compare lt h first1 last1 first2 last2 =
     (if \<not> iter_eq first1 last1 \<and> \<not> iter_eq first2 last2 then
        (case iter_deref h first1 of
           Inl e \<Rightarrow> Some (Inl e)
         | Inr x \<Rightarrow>
             (case iter_deref h first2 of
                Inl e \<Rightarrow> Some (Inl e)
              | Inr y \<Rightarrow>
                  if lt x y then Some (Inr True)
                  else if lt y x then Some (Inr False)
                  else
                    (case iter_incr h first1 of
                       Inl e \<Rightarrow> Some (Inl e)
                     | Inr n1 \<Rightarrow>
                         (case iter_incr h first2 of
                            Inl e \<Rightarrow> Some (Inl e)
                          | Inr n2 \<Rightarrow> lexicographical_compare lt h n1 last1 n2 last2))))
      else Some (Inr (iter_eq first1 last1 \<and> \<not> iter_eq first2 last2)))"

text \<open>The six operators of \<^verbatim>\<open>skip_list.hpp\<close>.\<close>

definition op_eq :: "'a heap \<Rightarrow> 'a skip_list \<Rightarrow> 'a skip_list \<Rightarrow> (fault + bool) option" where
  "op_eq h lhs rhs =
     (if size_sl lhs \<noteq> size_sl rhs then Some (Inr False)
      else
        bind_r (Some (begin_sl h lhs)) (\<lambda>first1.
        bind_r (Some (begin_sl h rhs)) (\<lambda>first2.
          std_equal h first1 (end_sl lhs) first2)))"

definition op_neq :: "'a heap \<Rightarrow> 'a skip_list \<Rightarrow> 'a skip_list \<Rightarrow> (fault + bool) option" where
  "op_neq h lhs rhs = bind_r (op_eq h lhs rhs) (\<lambda>b. Some (Inr (\<not> b)))"

definition op_less ::
  "('a \<Rightarrow> 'a \<Rightarrow> bool) \<Rightarrow> 'a heap \<Rightarrow> 'a skip_list \<Rightarrow> 'a skip_list \<Rightarrow> (fault + bool) option" where
  "op_less lt h lhs rhs =
     bind_r (Some (begin_sl h lhs)) (\<lambda>first1.
     bind_r (Some (begin_sl h rhs)) (\<lambda>first2.
       lexicographical_compare lt h first1 (end_sl lhs) first2 (end_sl rhs)))"

definition op_less_eq ::
  "('a \<Rightarrow> 'a \<Rightarrow> bool) \<Rightarrow> 'a heap \<Rightarrow> 'a skip_list \<Rightarrow> 'a skip_list \<Rightarrow> (fault + bool) option" where
  "op_less_eq lt h lhs rhs = bind_r (op_less lt h rhs lhs) (\<lambda>b. Some (Inr (\<not> b)))"

definition op_greater ::
  "('a \<Rightarrow> 'a \<Rightarrow> bool) \<Rightarrow> 'a heap \<Rightarrow> 'a skip_list \<Rightarrow> 'a skip_list \<Rightarrow> (fault + bool) option" where
  "op_greater lt h lhs rhs = op_less lt h rhs lhs"

definition op_greater_eq ::
  "('a \<Rightarrow> 'a \<Rightarrow> bool) \<Rightarrow> 'a heap \<Rightarrow> 'a skip_list \<Rightarrow> 'a skip_list \<Rightarrow> (fault + bool) option" where
  "op_greater_eq lt h lhs rhs = bind_r (op_less lt h lhs rhs) (\<lambda>b. Some (Inr (\<not> b)))"


section \<open>Programs over several containers\<close>

text \<open>
  The comparator is a strict weak ordering, the requirement \<^emph>\<open>Compare\<close> of C++: irreflexive,
  transitive, and with a transitive incomparability. Two keys are equivalent when neither
  compares less than the other.
\<close>

definition equiv_keys :: "('a \<Rightarrow> 'a \<Rightarrow> bool) \<Rightarrow> 'a \<Rightarrow> 'a \<Rightarrow> bool" where
  "equiv_keys cmp x y = (\<not> cmp x y \<and> \<not> cmp y x)"

definition strict_weak_order :: "('a \<Rightarrow> 'a \<Rightarrow> bool) \<Rightarrow> bool" where
  "strict_weak_order cmp =
     ((\<forall>x. \<not> cmp x x) \<and>
      (\<forall>x y z. cmp x y \<longrightarrow> cmp y z \<longrightarrow> cmp x z) \<and>
      (\<forall>x y z. equiv_keys cmp x y \<longrightarrow> equiv_keys cmp y z \<longrightarrow> equiv_keys cmp x z))"

text \<open>
  A program state is the heap and the containers that live on it. A state is reached when a
  sequence of operations of the public interface that return without a fault produces it from
  the state with no container. Each rule is one operation; the calls that only read (\<^verbatim>\<open>find\<close>,
  \<^verbatim>\<open>count\<close>, \<^verbatim>\<open>lower_bound\<close>, \<^verbatim>\<open>upper_bound\<close>, \<^verbatim>\<open>equal_range\<close>, \<^verbatim>\<open>size\<close>, \<^verbatim>\<open>empty\<close>,
  \<^verbatim>\<open>begin\<close>, \<^verbatim>\<open>end\<close>, the comparisons) and the assignments of a container to itself change
  nothing.

  The last rule is a store through a non-const iterator: \<^verbatim>\<open>operator*\<close> returns \<^verbatim>\<open>T&\<close>,
  \<^verbatim>\<open>operator->\<close> returns \<^verbatim>\<open>T*\<close>, and \<^verbatim>\<open>get_node()\<close> returns the shared pointer to the node,
  whose fields \<^verbatim>\<open>value\<close>, \<^verbatim>\<open>forward\<close> and \<^verbatim>\<open>level\<close> are public. A client that holds an iterator
  at a position of the iteration of a container can so replace the node there, as in
  \<^verbatim>\<open>*sl.find(5) = 0;\<close> The parameter \<open>allowed\<close> says which stores the clients make:
  \<open>allowed h s a n\<close> for the store of the node \<open>n\<close> at the address \<open>a\<close>, a position of the
  container \<open>s\<close>, on the heap \<open>h\<close>.
\<close>

record 'a world =
  heap :: "'a heap"
  objs :: "'a skip_list list"

inductive reach ::
  "('a heap \<Rightarrow> 'a skip_list \<Rightarrow> nat \<Rightarrow> 'a SkipListNode \<Rightarrow> bool) \<Rightarrow> 'a world \<Rightarrow> bool"
  for allowed :: "'a heap \<Rightarrow> 'a skip_list \<Rightarrow> nat \<Rightarrow> 'a SkipListNode \<Rightarrow> bool" where
  start:
    "reach allowed \<lparr>heap = [], objs = []\<rparr>"
| construct:
    "reach allowed w \<Longrightarrow> strict_weak_order cmp \<Longrightarrow>
     skip_list_new (heap w) dflt cmp g = (h, s) \<Longrightarrow>
     reach allowed \<lparr>heap = h, objs = objs w @ [s]\<rparr>"
| construct_init:
    "reach allowed w \<Longrightarrow> strict_weak_order cmp \<Longrightarrow>
     skip_list_init (heap w) init dflt cmp g = Some (Inr (h, s)) \<Longrightarrow>
     reach allowed \<lparr>heap = h, objs = objs w @ [s]\<rparr>"
| construct_copy:
    "reach allowed w \<Longrightarrow> k < length (objs w) \<Longrightarrow>
     copy_construct (heap w) (objs w ! k) dflt g = Some (Inr (h, s)) \<Longrightarrow>
     reach allowed \<lparr>heap = h, objs = objs w @ [s]\<rparr>"
| construct_move:
    "reach allowed w \<Longrightarrow> k < length (objs w) \<Longrightarrow>
     move_construct (objs w ! k) = (s, other) \<Longrightarrow>
     reach allowed \<lparr>heap = heap w, objs = (objs w)[k := other] @ [s]\<rparr>"
| assign_copy:
    "reach allowed w \<Longrightarrow> j < length (objs w) \<Longrightarrow> k < length (objs w) \<Longrightarrow> j \<noteq> k \<Longrightarrow>
     copy_assign (heap w) (objs w ! j) (objs w ! k) dflt g = Some (Inr (h, s)) \<Longrightarrow>
     reach allowed \<lparr>heap = h, objs = (objs w)[j := s]\<rparr>"
| assign_move:
    "reach allowed w \<Longrightarrow> j < length (objs w) \<Longrightarrow> k < length (objs w) \<Longrightarrow> j \<noteq> k \<Longrightarrow>
     move_assign (heap w) (objs w ! j) (objs w ! k) = Inr (h, s, other) \<Longrightarrow>
     reach allowed \<lparr>heap = h, objs = (objs w)[j := s, k := other]\<rparr>"
| call_insert:
    "reach allowed w \<Longrightarrow> j < length (objs w) \<Longrightarrow>
     insert_sl (heap w) (objs w ! j) v = Some (Inr (h, s, r)) \<Longrightarrow>
     reach allowed \<lparr>heap = h, objs = (objs w)[j := s]\<rparr>"
| call_emplace:
    "reach allowed w \<Longrightarrow> j < length (objs w) \<Longrightarrow>
     emplace (heap w) (objs w ! j) v = Some (Inr (h, s, r)) \<Longrightarrow>
     reach allowed \<lparr>heap = h, objs = (objs w)[j := s]\<rparr>"
| call_clear:
    "reach allowed w \<Longrightarrow> j < length (objs w) \<Longrightarrow>
     clear (heap w) (objs w ! j) = Inr (h, s) \<Longrightarrow>
     reach allowed \<lparr>heap = h, objs = (objs w)[j := s]\<rparr>"
| call_swap:
    "reach allowed w \<Longrightarrow> j < length (objs w) \<Longrightarrow> k < length (objs w) \<Longrightarrow> j \<noteq> k \<Longrightarrow>
     swap_sl (objs w ! j) (objs w ! k) = (s, other) \<Longrightarrow>
     reach allowed \<lparr>heap = heap w, objs = (objs w)[j := s, k := other]\<rparr>"
| store:
    "reach allowed w \<Longrightarrow> j < length (objs w) \<Longrightarrow>
     positions (heap w) (objs w ! j) = Some (Inr xs) \<Longrightarrow> (Some a, x) \<in> set xs \<Longrightarrow>
     allowed (heap w) (objs w ! j) a n \<Longrightarrow>
     reach allowed \<lparr>heap = (heap w)[a := n], objs = objs w\<rparr>"

text \<open>The states that any sequence of operations of the public interface reaches.\<close>

definition reachable :: "'a world \<Rightarrow> bool" where
  "reachable w = reach (\<lambda>h s a n. True) w"

text \<open>
  A store keeps the order when it changes the value of the element only and the iteration
  of the container is strictly ascending under its comparator after it. The states that the
  operations reach when every store through an iterator keeps the order:
\<close>

definition order_kept :: "'a heap \<Rightarrow> 'a skip_list \<Rightarrow> nat \<Rightarrow> 'a SkipListNode \<Rightarrow> bool" where
  "order_kept h s a n =
     (n = (h ! a)\<lparr>node_value := node_value n\<rparr> \<and>
      (case to_list (h[a := n]) s of
         Some (Inr vs) \<Rightarrow> sorted_wrt (sl_comp s) vs
       | _ \<Rightarrow> False))"

definition reachable_ordered :: "'a world \<Rightarrow> bool" where
  "reachable_ordered w = reach order_kept w"

section \<open>Chains of links and the invariant\<close>

text \<open>
  \<open>lseg h i p as q\<close>: following the forward links of index \<open>i\<close> from the pointer \<open>p\<close>
  visits the nodes at the addresses \<open>as\<close>, in this order, and arrives at \<open>q\<close>. The chain of
  level \<open>i\<close> of a container is the segment from \<^verbatim>\<open>head_->forward[i]\<close> to null.
\<close>

fun lseg :: "'a heap \<Rightarrow> nat \<Rightarrow> nat option \<Rightarrow> nat list \<Rightarrow> nat option \<Rightarrow> bool" where
  "lseg h i p [] q = (p = q)"
| "lseg h i p (a # as) q =
     (p = Some a \<and> a < length h \<and> i < length (forward (h ! a)) \<and>
      lseg h i (forward (h ! a) ! i) as q)"

definition key_at :: "'a heap \<Rightarrow> nat \<Rightarrow> 'a" where
  "key_at h a = node_value (h ! a)"

definition level_at :: "'a heap \<Rightarrow> nat \<Rightarrow> nat" where
  "level_at h a = level (h ! a)"

text \<open>The nodes of \<open>as\<close> that take part in level \<open>i\<close>.\<close>

definition at_level :: "'a heap \<Rightarrow> nat \<Rightarrow> nat list \<Rightarrow> nat list" where
  "at_level h i as = filter (\<lambda>a. i \<le> level_at h a) as"

text \<open>
  The invariant of a container with a head, for the addresses \<open>as\<close> of its nodes in the
  order of level 0.
\<close>

definition sl_inv :: "'a heap \<Rightarrow> 'a skip_list \<Rightarrow> nat list \<Rightarrow> bool" where
  "sl_inv h s as =
     (\<exists>hp. sl_head s = Some hp \<and> hp < length h \<and> hp \<notin> set as \<and> distinct as \<and>
        MAX_LEVEL \<le> length (forward (h ! hp)) \<and>
        sl_max_level s < MAX_LEVEL \<and>
        sl_size s = length as \<and>
        strict_weak_order (sl_comp s) \<and>
        sorted_wrt (sl_comp s) (map (key_at h) as) \<and>
        (\<forall>a\<in>set as. length (forward (h ! a)) = level_at h a + 1 \<and> level_at h a \<le> sl_max_level s) \<and>
        (\<forall>i<MAX_LEVEL. lseg h i (forward (h ! hp) ! i) (at_level h i as) None))"

text \<open>A moved-from container has no head; a container is that or satisfies the invariant.\<close>

definition moved_from :: "'a skip_list \<Rightarrow> bool" where
  "moved_from s = (sl_head s = None \<and> sl_size s = 0 \<and> sl_max_level s = 0)"

definition obj_inv :: "'a heap \<Rightarrow> 'a skip_list \<Rightarrow> nat list \<Rightarrow> bool" where
  "obj_inv h s as = ((moved_from s \<and> as = []) \<or> sl_inv h s as)"

definition footprint :: "'a skip_list \<Rightarrow> nat list \<Rightarrow> nat set" where
  "footprint s as = set_option (sl_head s) \<union> set as"

section \<open>The words of the specification\<close>

text \<open>
  The distinct keys of a sequence: a key is dropped when an equivalent key came before it.
\<close>

definition distinct_keys :: "('a \<Rightarrow> 'a \<Rightarrow> bool) \<Rightarrow> 'a list \<Rightarrow> 'a list" where
  "distinct_keys cmp ks =
     foldl (\<lambda>acc k. if \<exists>x\<in>set acc. equiv_keys cmp x k then acc else acc @ [k]) [] ks"

text \<open>The lexicographic comparison of two sequences under an order \<open>lt\<close> of the elements.\<close>

fun lex_less :: "('a \<Rightarrow> 'a \<Rightarrow> bool) \<Rightarrow> 'a list \<Rightarrow> 'a list \<Rightarrow> bool" where
  "lex_less lt [] [] = False"
| "lex_less lt [] (y # ys) = True"
| "lex_less lt (x # xs) [] = False"
| "lex_less lt (x # xs) (y # ys) = (lt x y \<or> (\<not> lt y x \<and> lex_less lt xs ys))"

text \<open>
  The probability of a level. A draw that is uniform in \<open>[0, 1)\<close> is below \<open>P\<close> with
  probability \<open>P\<close>, and independent draws multiply. An event fixes, for the first draws of
  the generator, which of them are below \<open>P\<close>; \<open>level_event L\<close> is the event on which the
  generator returns \<open>L\<close>, for \<open>L \<le> MAX_LEVEL - 1\<close>.
\<close>

definition event_holds :: "bool list \<Rightarrow> real stream \<Rightarrow> bool" where
  "event_holds bs g = (\<forall>j<length bs. (g !! j < P) = bs ! j)"

definition event_prob :: "bool list \<Rightarrow> real" where
  "event_prob bs = prod_list (map (\<lambda>b. if b then P else 1 - P) bs)"

definition level_event :: "nat \<Rightarrow> bool list" where
  "level_event L = replicate L True @ (if L < MAX_LEVEL - 1 then [False] else [])"


text \<open>
  The element type of the tests, \<^verbatim>\<open>struct TestStruct { int value; std::string name; }\<close>.
  Its \<^verbatim>\<open>operator<\<close> compares the values only; its \<^verbatim>\<open>operator==\<close> compares the values and the
  names, which is the equality of the record.
\<close>

record TestStruct =
  ts_value :: int
  ts_name :: string

definition TestStruct_less :: "TestStruct \<Rightarrow> TestStruct \<Rightarrow> bool" where
  "TestStruct_less a b = (ts_value a < ts_value b)"

text \<open>
  The client program \<^verbatim>\<open>skip_list<T, Compare> lhs = {ks1...}; skip_list<T, Compare> rhs = {ks2...};
  return lhs == rhs;\<close>
\<close>

definition eq_after_inserts ::
  "'a heap \<Rightarrow> 'a \<Rightarrow> ('a \<Rightarrow> 'a \<Rightarrow> bool) \<Rightarrow> real stream \<Rightarrow> real stream \<Rightarrow> 'a list \<Rightarrow> 'a list \<Rightarrow>
   (fault + bool) option" where
  "eq_after_inserts h dflt cmp g1 g2 ks1 ks2 =
     bind_r (skip_list_init h ks1 dflt cmp g1) (\<lambda>(h1, lhs).
     bind_r (skip_list_init h1 ks2 dflt cmp g2) (\<lambda>(h2, rhs).
       op_eq h2 lhs rhs))"

section \<open>Auxiliary notions of the proofs\<close>

definition same_link :: "'a heap \<Rightarrow> 'a heap \<Rightarrow> nat \<Rightarrow> nat \<Rightarrow> bool" where
  "same_link h h' i a =
     (a < length h' \<and> length (forward (h' ! a)) = length (forward (h ! a)) \<and>
      forward (h' ! a) ! i = forward (h ! a) ! i)"

definition down_closed :: "('a \<Rightarrow> 'a \<Rightarrow> bool) \<Rightarrow> ('a \<Rightarrow> bool) \<Rightarrow> bool" where
  "down_closed cmp go = (\<forall>x y. cmp x y \<longrightarrow> go y \<longrightarrow> go x)"

definition pre_of :: "'a heap \<Rightarrow> ('a \<Rightarrow> bool) \<Rightarrow> nat list \<Rightarrow> nat list" where
  "pre_of h go as = takeWhile (\<lambda>a. go (key_at h a)) as"

definition post_of :: "'a heap \<Rightarrow> ('a \<Rightarrow> bool) \<Rightarrow> nat list \<Rightarrow> nat list" where
  "post_of h go as = dropWhile (\<lambda>a. go (key_at h a)) as"

definition pred_at :: "'a heap \<Rightarrow> nat \<Rightarrow> ('a \<Rightarrow> bool) \<Rightarrow> nat list \<Rightarrow> nat \<Rightarrow> nat" where
  "pred_at h hp go as i = last (hp # at_level h i (pre_of h go as))"

text \<open>The iteration from \<open>p\<close> to \<^verbatim>\<open>end()\<close> reads the values \<open>vs\<close>.\<close>

fun walk :: "'a heap \<Rightarrow> iterator \<Rightarrow> 'a list \<Rightarrow> bool" where
  "walk h p [] = (p = None)"
| "walk h p (v # vs) =
     (\<exists>q. p \<noteq> None \<and> iter_deref h p = Inr v \<and> iter_incr h p = Inr q \<and> walk h q vs)"

definition first_of :: "nat list \<Rightarrow> nat option" where
  "first_of xs = (case xs of [] \<Rightarrow> None | a # _ \<Rightarrow> Some a)"

text \<open>The first position of an iteration whose value satisfies \<open>Q\<close>, or \<^verbatim>\<open>end()\<close>.\<close>

definition first_pos :: "('a \<Rightarrow> bool) \<Rightarrow> (iterator \<times> 'a) list \<Rightarrow> iterator" where
  "first_pos Q xs = (case List.find (\<lambda>(p, v). Q v) xs of None \<Rightarrow> None | Some (p, v) \<Rightarrow> p)"

definition pos_list :: "'a heap \<Rightarrow> nat list \<Rightarrow> (iterator \<times> 'a) list" where
  "pos_list h as = map (\<lambda>a. (Some a, key_at h a)) as"

definition link_update :: "'a heap \<Rightarrow> nat \<Rightarrow> nat \<Rightarrow> nat option \<Rightarrow> 'a heap" where
  "link_update h a i q = h[a := (h ! a)\<lparr>forward := (forward (h ! a))[i := q]\<rparr>]"

definition ins_key :: "('a \<Rightarrow> 'a \<Rightarrow> bool) \<Rightarrow> 'a \<Rightarrow> 'a list \<Rightarrow> 'a list" where
  "ins_key cmp v ks =
     (if \<exists>x\<in>set ks. equiv_keys cmp x v then ks
      else takeWhile (\<lambda>x. cmp x v) ks @ v # dropWhile (\<lambda>x. cmp x v) ks)"

text \<open>What a call on one container may do to the heap and to the footprint.\<close>

definition extends ::
  "'a heap \<Rightarrow> 'a skip_list \<Rightarrow> nat list \<Rightarrow> 'a heap \<Rightarrow> 'a skip_list \<Rightarrow> nat list \<Rightarrow> bool" where
  "extends h s as h' s' as' =
     (length h \<le> length h' \<and>
      (\<forall>a<length h. a \<notin> footprint s as \<longrightarrow> h' ! a = h ! a) \<and>
      footprint s' as' \<subseteq> footprint s as \<union> {length h ..< length h'} \<and>
      sl_comp s' = sl_comp s \<and> sl_head s' = sl_head s)"

definition world_rel :: "'a heap \<Rightarrow> 'a skip_list list \<Rightarrow> nat list list \<Rightarrow> bool" where
  "world_rel h os A =
     (length A = length os \<and>
      (\<forall>k<length os. obj_inv h (os ! k) (A ! k)) \<and>
      (\<forall>j<length os. \<forall>k<length os. j \<noteq> k \<longrightarrow>
         footprint (os ! j) (A ! j) \<inter> footprint (os ! k) (A ! k) = {}))"

section \<open>Example states\<close>



text \<open>
  The state after \<^verbatim>\<open>skip_list<int> sl = {1, 3, 5, 7, 9};\<close> on the empty heap, when the draws
  of the generator are \<open>0.1, 0.9, 0.9\<close> again and again: the keys 1, 5 and 9 get level 1, the
  keys 3 and 7 level 0.
\<close>

definition ex_heap2 :: "int heap" where
  "ex_heap2 =
     [\<lparr>node_value = 0, forward = (replicate 33 None)[0 := Some 1, 1 := Some 1], level = 32\<rparr>,
      \<lparr>node_value = 1, forward = [Some 2, Some 3], level = 1\<rparr>,
      \<lparr>node_value = 3, forward = [Some 3], level = 0\<rparr>,
      \<lparr>node_value = 5, forward = [Some 4, Some 5], level = 1\<rparr>,
      \<lparr>node_value = 7, forward = [Some 5], level = 0\<rparr>,
      \<lparr>node_value = 9, forward = [None, None], level = 1\<rparr>]"

definition ex_list2 :: "int skip_list" where
  "ex_list2 =
     \<lparr>sl_head = Some 0, sl_size = 5, sl_max_level = 1, sl_comp = (<),
      sl_gen = cycle [9 / 10, 1 / 10, 9 / 10]\<rparr>"

definition ex_world2 :: "int world" where
  "ex_world2 = \<lparr>heap = ex_heap2, objs = [ex_list2]\<rparr>"

text \<open>
  The state after \<^verbatim>\<open>skip_list<int> a = {1, 2, 3}; skip_list<int> b = {1, 2, 4};\<close> on the
  empty heap, and the one between the two constructors, when every draw is \<open>1/2\<close>.
\<close>

definition ex_heap3a :: "int heap" where
  "ex_heap3a =
     [\<lparr>node_value = 0, forward = (replicate 33 None)[0 := Some 1], level = 32\<rparr>,
      \<lparr>node_value = 1, forward = [Some 2], level = 0\<rparr>,
      \<lparr>node_value = 2, forward = [Some 3], level = 0\<rparr>,
      \<lparr>node_value = 3, forward = [None], level = 0\<rparr>]"

definition ex_heap3 :: "int heap" where
  "ex_heap3 = ex_heap3a @
     [\<lparr>node_value = 0, forward = (replicate 33 None)[0 := Some 5], level = 32\<rparr>,
      \<lparr>node_value = 1, forward = [Some 6], level = 0\<rparr>,
      \<lparr>node_value = 2, forward = [Some 7], level = 0\<rparr>,
      \<lparr>node_value = 4, forward = [None], level = 0\<rparr>]"

definition ex_list3a :: "int skip_list" where
  "ex_list3a =
     \<lparr>sl_head = Some 0, sl_size = 3, sl_max_level = 0, sl_comp = (<), sl_gen = sconst (1 / 2)\<rparr>"

definition ex_list3b :: "int skip_list" where
  "ex_list3b =
     \<lparr>sl_head = Some 4, sl_size = 3, sl_max_level = 0, sl_comp = (<), sl_gen = sconst (1 / 2)\<rparr>"

definition ex_world3 :: "int world" where
  "ex_world3 = \<lparr>heap = ex_heap3, objs = [ex_list3a, ex_list3b]\<rparr>"

text \<open>
  The state of \<^verbatim>\<open>{1, 3, 5, 7, 9}\<close> after \<^verbatim>\<open>*sl.find(5) = 6;\<close>, a store that keeps the order,
  and after \<^verbatim>\<open>*sl.find(5) = 0;\<close>, a store that does not.
\<close>

definition ex_heap2k :: "int heap" where
  "ex_heap2k = ex_heap2[3 := \<lparr>node_value = 6, forward = [Some 4, Some 5], level = 1\<rparr>]"

definition ex_world2k :: "int world" where
  "ex_world2k = \<lparr>heap = ex_heap2k, objs = [ex_list2]\<rparr>"

definition ex_heap2s :: "int heap" where
  "ex_heap2s = ex_heap2[3 := \<lparr>node_value = 0, forward = [Some 4, Some 5], level = 1\<rparr>]"

definition ex_world2s :: "int world" where
  "ex_world2s = \<lparr>heap = ex_heap2s, objs = [ex_list2]\<rparr>"

text \<open>The second of them after \<^verbatim>\<open>sl.insert(3);\<close>\<close>

definition ex_heap2t :: "int heap" where
  "ex_heap2t =
     ex_heap2[3 := \<lparr>node_value = 0, forward = [Some 6, Some 5], level = 1\<rparr>] @
     [\<lparr>node_value = 3, forward = [Some 4], level = 0\<rparr>]"

definition ex_list2t :: "int skip_list" where
  "ex_list2t =
     \<lparr>sl_head = Some 0, sl_size = 6, sl_max_level = 1, sl_comp = (<),
      sl_gen = cycle [1 / 10, 9 / 10, 9 / 10]\<rparr>"



section \<open>Evaluation\<close>

lemma bind_e_simps [simp]:
  "bind_e (Inl e) f = Inl e"
  "bind_e (Inr x) f = f x"
  by (simp_all add: bind_e_def)

lemma bind_r_simps [simp]:
  "bind_r None f = None"
  "bind_r (Some (Inl e)) f = Some (Inl e)"
  "bind_r (Some (Inr x)) f = f x"
  by (simp_all add: bind_r_def)

lemmas eval_defs = SkipListNode_new_def make_shared_def node_at_def
  forward_at_def set_forward_def skip_list_new_def insert_sl_def insert_impl_def is_match_def
  set_update_def random_level_def random_level_loop.simps MAX_LEVEL_def P_def advance.simps
  begin_sl_def end_sl_def positions_def collect.simps iter_eq_def iter_deref_def iter_incr_def
  size_sl_def empty_sl_def upt_rec

section \<open>The level generator\<close>

lemma random_level_loop_upper:
  "lvl \<le> MAX_LEVEL - 1 \<Longrightarrow> fst (random_level_loop g lvl) \<le> MAX_LEVEL - 1"
  apply (induction g lvl rule: random_level_loop.induct)
  apply (subst random_level_loop.simps)
  apply auto
  done

lemma random_level_loop_lower: "lvl \<le> fst (random_level_loop g lvl)"
  apply (induction g lvl rule: random_level_loop.induct)
  apply (subst random_level_loop.simps)
  apply auto
  done

text \<open>
  The loop entered with \<open>lvl\<close> returns \<open>lvl + k\<close> exactly when the next \<open>k\<close> draws are
  below \<open>P\<close> and then the cap is reached or the draw after them is not below \<open>P\<close>.
\<close>

lemma random_level_loop_result:
  "lvl + k \<le> MAX_LEVEL - 1 \<Longrightarrow>
   (fst (random_level_loop g lvl) = lvl + k) =
   ((\<forall>j<k. g !! j < P) \<and> (lvl + k = MAX_LEVEL - 1 \<or> \<not> g !! k < P))"
proof (induction g lvl arbitrary: k rule: random_level_loop.induct)
  case (1 g lvl)
  show ?case
  proof (cases "shd g < P \<and> lvl < MAX_LEVEL - 1")
    case True
    then have eq: "random_level_loop g lvl = random_level_loop (stl g) (lvl + 1)"
      by (subst random_level_loop.simps) simp
    show ?thesis
    proof (cases k)
      case 0
      have "lvl + 1 \<le> fst (random_level_loop (stl g) (lvl + 1))"
        by (rule random_level_loop_lower)
      with True 0 eq show ?thesis by auto
    next
      case (Suc k')
      with "1.prems" have "lvl + 1 + k' \<le> MAX_LEVEL - 1" by simp
      from "1.IH" [OF True this] eq Suc True show ?thesis
        by (simp add: All_less_Suc2)
    qed
  next
    case False
    then have eq: "random_level_loop g lvl = (lvl, stl g)"
      by (subst random_level_loop.simps) auto
    show ?thesis using False eq "1.prems" by (cases k) auto
  qed
qed

lemma random_level_le: "fst (random_level g) \<le> MAX_LEVEL - 1"
  unfolding random_level_def by (rule random_level_loop_upper) simp

lemma event_holds_level:
  "event_holds (level_event L) g =
   ((\<forall>j<L. g !! j < P) \<and> (L < MAX_LEVEL - 1 \<longrightarrow> \<not> g !! L < P))"
  by (auto simp: event_holds_def level_event_def nth_append less_Suc_eq)

lemma event_prob_level:
  "event_prob (level_event L) = (if L < MAX_LEVEL - 1 then P ^ L * (1 - P) else P ^ L)"
  by (simp add: event_prob_def level_event_def)

text \<open>The events of the levels \<open>0, \<dots>, MAX_LEVEL - 1\<close> have total probability 1.\<close>

lemma level_prob_total: "(\<Sum>L\<le>MAX_LEVEL - 1. event_prob (level_event L)) = 1"
proof -
  have "(\<Sum>L<n. P ^ L * (1 - P)) + P ^ n = 1" for n
    by (induction n) (simp_all add: algebra_simps)
  from this [of "MAX_LEVEL - 1"] show ?thesis
    by (simp add: event_prob_level lessThan_Suc_atMost [symmetric] del: lessThan_Suc_atMost)
qed

text \<open>
  C5, as amended. The generator returns a level of at most \<open>MAX_LEVEL - 1\<close>. It returns
  \<open>L\<close> exactly when the first \<open>L\<close> draws are below \<open>P\<close> and, if \<open>L\<close> is not the cap, the
  next draw is not below \<open>P\<close>: it starts at level 0 and increments once per successive draw
  below \<open>P\<close> until a draw
  is not below \<open>P\<close> or the cap is reached. With independent uniform draws this event has
  probability \<open>P^L * (1 - P)\<close> for \<open>L < MAX_LEVEL - 1\<close> and \<open>P^(MAX_LEVEL - 1)\<close> for the cap.
\<close>

theorem random_level_distribution:
  assumes "L \<le> MAX_LEVEL - 1"
  shows "fst (random_level g) \<le> MAX_LEVEL - 1 \<and>
         ((fst (random_level g) = L) = event_holds (level_event L) g) \<and>
         event_prob (level_event L) =
           (if L < MAX_LEVEL - 1 then P ^ L * (1 - P) else P ^ (MAX_LEVEL - 1))"
proof -
  have b: "(fst (random_level g) = L) = event_holds (level_event L) g"
    using random_level_loop_result [of 0 L g] assms
    unfolding random_level_def event_holds_level by auto
  have c: "event_prob (level_event L) =
           (if L < MAX_LEVEL - 1 then P ^ L * (1 - P) else P ^ (MAX_LEVEL - 1))"
    using assms by (auto simp: event_prob_level)
  from random_level_le b c show ?thesis by blast
qed

theorem random_level_distribution_witness:
  "(1::nat) \<le> MAX_LEVEL - 1 \<and>
   fst (random_level (cycle [0.1, 0.9])) \<le> MAX_LEVEL - 1 \<and>
   ((fst (random_level (cycle [0.1, 0.9])) = 1) = event_holds (level_event 1) (cycle [0.1, 0.9])) \<and>
   event_prob (level_event 1) = P ^ 1 * (1 - P)"
  using random_level_distribution [of 1 "cycle [0.1, 0.9]"]
  by (simp add: MAX_LEVEL_def)

text \<open>
  C5 as it is written gives level \<open>L\<close> the probability \<open>P * (1 - P)^L\<close>. For level 0 that
  is \<open>1/4\<close>, but the generator returns 0 whenever the first draw is not below \<open>P\<close>, which has
  probability \<open>3/4\<close>.
\<close>

theorem level_probability_counterexample:
  "fst (random_level (sconst 0.5)) = 0 \<and>
   event_prob (level_event 0) = 3 / 4 \<and>
   event_prob (level_event 0) \<noteq> P * (1 - P) ^ (0::nat)"
  by (simp add: level_event_def event_prob_def MAX_LEVEL_def P_def
      random_level_def random_level_loop.simps)

section \<open>Iterators at the end\<close>





section \<open>The head and the moved-from container\<close>

text \<open>
  C9, at a new container. The constructor creates the head with level \<open>MAX_LEVEL\<close>, so its
  forward vector has \<open>MAX_LEVEL + 1\<close> slots, not \<open>MAX_LEVEL\<close>. After \<^verbatim>\<open>clear()\<close> it has
  \<open>MAX_LEVEL\<close> slots while the level of the head is still \<open>MAX_LEVEL\<close>, so its length is not
  its level plus one.
\<close>

theorem head_forward_slots:
  "sl_head (snd (skip_list_new h d cmp g)) = Some (length h) \<and>
   length (forward (fst (skip_list_new h d cmp g) ! length h)) = MAX_LEVEL + 1 \<and>
   (\<exists>h2 s2. clear (fst (skip_list_new h d cmp g)) (snd (skip_list_new h d cmp g)) = Inr (h2, s2) \<and>
      length (forward (h2 ! length h)) = MAX_LEVEL \<and>
      level (h2 ! length h) = MAX_LEVEL \<and>
      length (forward (h2 ! length h)) \<noteq> level (h2 ! length h) + 1)"
  by (simp add: skip_list_new_def make_shared_def SkipListNode_new_def clear_def)

text \<open>
  C7, at the source of a move. The new container takes over the head and the size; the
  source has size 0 and is \<^verbatim>\<open>empty()\<close>, but its head pointer is null, so \<^verbatim>\<open>begin()\<close> on
  it dereferences a null pointer instead of returning \<^verbatim>\<open>end()\<close>.
\<close>

theorem moved_from_source:
  "size_sl (snd (move_construct s)) = 0 \<and> empty_sl (snd (move_construct s)) \<and>
   sl_head (fst (move_construct s)) = sl_head s \<and>
   size_sl (fst (move_construct s)) = size_sl s \<and>
   sl_head (snd (move_construct s)) = None \<and>
   begin_sl h (snd (move_construct s)) = Inl NullDeref \<and>
   to_list h (snd (move_construct s)) = Some (Inl NullDeref)"
  by (simp add: move_construct_def size_sl_def empty_sl_def begin_sl_def to_list_def
      positions_def)

text \<open>
  C6, at the source of a move. Dereferencing \<^verbatim>\<open>end()\<close> or a default-constructed iterator
  raises the runtime error; but on a moved-from container every search, \<^verbatim>\<open>insert\<close> and
  \<^verbatim>\<open>clear\<close> dereference the null head pointer.
\<close>

theorem moved_from_calls_fault:
  "iter_deref h (end_sl s) = Inl (RuntimeError ''Dereferencing null iterator'') \<and>
   iter_arrow h iterator_default = Inl (RuntimeError ''Accessing null iterator'') \<and>
   find_sl h (snd (move_construct s)) k = Some (Inl NullDeref) \<and>
   count_sl h (snd (move_construct s)) k = Some (Inl NullDeref) \<and>
   lower_bound h (snd (move_construct s)) k = Some (Inl NullDeref) \<and>
   upper_bound h (snd (move_construct s)) k = Some (Inl NullDeref) \<and>
   equal_range h (snd (move_construct s)) k = Some (Inl NullDeref) \<and>
   insert_sl h (snd (move_construct s)) k = Some (Inl NullDeref) \<and>
   clear h (snd (move_construct s)) = Inl NullDeref"
  by (simp add: move_construct_def iter_deref_def iter_arrow_def end_sl_def iterator_default_def
      find_sl_def find_impl_def count_sl_def lower_bound_def lower_bound_impl_def
      upper_bound_def upper_bound_impl_def equal_range_def insert_sl_def insert_impl_def clear_def)


section \<open>Search, insertion and the invariant\<close>

subsection \<open>Segments\<close>

lemma lseg_append:
  "lseg h i p (xs @ ys) q = (\<exists>m. lseg h i p xs m \<and> lseg h i m ys q)"
  by (induction xs arbitrary: p) auto

lemma lseg_valid:
  "lseg h i p xs q \<Longrightarrow> a \<in> set xs \<Longrightarrow> a < length h \<and> i < length (forward (h ! a))"
  by (induction xs arbitrary: p) auto

lemma lseg_frame:
  "lseg h i p xs q \<Longrightarrow> (\<And>a. a \<in> set xs \<Longrightarrow> same_link h h' i a) \<Longrightarrow> lseg h' i p xs q"
  by (induction xs arbitrary: p) (auto simp: same_link_def)

lemma lseg_last_link:
  "lseg h i p (xs @ [a]) q \<Longrightarrow> forward_at h a i = Inr q"
  by (auto simp: lseg_append forward_at_def)

lemma lseg_head:
  "lseg h i p xs None \<Longrightarrow> p = (case xs of [] \<Rightarrow> None | a # _ \<Rightarrow> Some a)"
  by (cases xs) auto

subsection \<open>The inner loop\<close>

lemma advance_lseg:
  "lseg h i (Some cur) (cur # ys @ zs) None \<Longrightarrow>
   (\<And>y. y \<in> set ys \<Longrightarrow> go (key_at h y)) \<Longrightarrow>
   (\<And>z. z \<in> set zs \<Longrightarrow> \<not> go (key_at h z)) \<Longrightarrow>
   advance h go i cur = Some (Inr (last (cur # ys)))"
proof (induction ys arbitrary: cur)
  case Nil
  then show ?case
    by (cases zs) (auto simp: advance.simps forward_at_def node_at_def key_at_def)
next
  case (Cons y ys)
  from Cons.prems(1) have seg: "lseg h i (Some y) (y # ys @ zs) None"
    and fw: "forward_at h cur i = Inr (Some y)" and y: "node_at h y = Inr (h ! y)"
    by (auto simp: forward_at_def node_at_def)
  have "advance h go i y = Some (Inr (last (y # ys)))"
    by (rule Cons.IH [OF seg]) (use Cons.prems in auto)
  moreover have "go (node_value (h ! y))"
    using Cons.prems(2) [of y] by (simp add: key_at_def)
  ultimately show ?case
    using fw y by (subst advance.simps) simp
qed

subsection \<open>The search path\<close>

lemma pre_post: "pre_of h go as @ post_of h go as = as"
  by (simp add: pre_of_def post_of_def)

lemma pre_go: "a \<in> set (pre_of h go as) \<Longrightarrow> go (key_at h a)"
  by (auto simp: pre_of_def dest: set_takeWhileD)

lemma post_not_go:
  assumes "sorted_wrt cmp (map (key_at h) as)" and "down_closed cmp go"
    and "a \<in> set (post_of h go as)"
  shows "\<not> go (key_at h a)"
proof (cases "post_of h go as")
  case Nil
  with assms(3) show ?thesis by simp
next
  case (Cons b rest)
  have b: "\<not> go (key_at h b)"
    using Cons by (simp add: post_of_def dropWhile_eq_Cons_conv)
  show ?thesis
  proof (cases "a = b")
    case True
    with b show ?thesis by simp
  next
    case False
    with assms(3) Cons have "a \<in> set rest" by simp
    moreover have "sorted_wrt cmp (map (key_at h) (pre_of h go as @ b # rest))"
      using assms(1) pre_post [of h go as] Cons by simp
    ultimately have "cmp (key_at h b) (key_at h a)"
      by (auto simp: sorted_wrt_append)
    with assms(2) b show ?thesis by (auto simp: down_closed_def)
  qed
qed

lemma at_level_append: "at_level h i (xs @ ys) = at_level h i xs @ at_level h i ys"
  by (simp add: at_level_def)

lemma at_level_0 [simp]: "at_level h 0 xs = xs"
  by (simp add: at_level_def)

lemma at_level_subset: "set (at_level h i xs) \<subseteq> set xs"
  by (auto simp: at_level_def)

lemma at_level_mono: "i \<le> j \<Longrightarrow> set (at_level h j xs) \<subseteq> set (at_level h i xs)"
  by (auto simp: at_level_def)

lemma sl_inv_head_seg:
  assumes "sl_inv h s as" and "sl_head s = Some hp" and "i < MAX_LEVEL"
  shows "lseg h i (Some hp) (hp # at_level h i (pre_of h go as) @ at_level h i (post_of h go as)) None"
proof -
  from assms have "lseg h i (forward (h ! hp) ! i) (at_level h i as) None"
    and "hp < length h" and "i < length (forward (h ! hp))"
    by (auto simp: sl_inv_def)
  then show ?thesis
    using pre_post [of h go as] at_level_append [of h i "pre_of h go as" "post_of h go as"]
    by simp
qed

lemma pred_at_in: "pred_at h hp go as i \<in> set (hp # at_level h i (pre_of h go as))"
  unfolding pred_at_def by (rule last_in_set) simp

lemma advance_level:
  assumes inv: "sl_inv h s as" and hd: "sl_head s = Some hp" and i: "i < MAX_LEVEL"
    and dc: "down_closed (sl_comp s) go"
    and cur: "cur \<in> set (hp # at_level h i (pre_of h go as))"
  shows "advance h go i cur = Some (Inr (pred_at h hp go as i))"
proof -
  let ?pre = "at_level h i (pre_of h go as)" and ?post = "at_level h i (post_of h go as)"
  from split_list [OF cur] obtain xs ys where split: "hp # ?pre = xs @ cur # ys"
    by blast
  have ys_pre: "set ys \<subseteq> set ?pre"
    using split by (cases xs) auto
  have "lseg h i (Some hp) ((hp # ?pre) @ ?post) None"
    using sl_inv_head_seg [OF inv hd i, of go] by simp
  then have "lseg h i (Some hp) (xs @ (cur # ys @ ?post)) None"
    by (simp add: split)
  then obtain m where m: "lseg h i m (cur # ys @ ?post) None"
    unfolding lseg_append by blast
  then have seg: "lseg h i (Some cur) (cur # ys @ ?post) None" by simp
  have sorted: "sorted_wrt (sl_comp s) (map (key_at h) as)"
    using inv by (auto simp: sl_inv_def)
  have "advance h go i cur = Some (Inr (last (cur # ys)))"
  proof (rule advance_lseg [OF seg])
    fix y assume "y \<in> set ys"
    with ys_pre have "y \<in> set (pre_of h go as)" using at_level_subset by fastforce
    then show "go (key_at h y)" by (rule pre_go)
  next
    fix z assume "z \<in> set ?post"
    then have "z \<in> set (post_of h go as)" using at_level_subset by fastforce
    then show "\<not> go (key_at h z)" by (rule post_not_go [OF sorted dc])
  qed
  moreover have "last (cur # ys) = last (hp # ?pre)"
    by (simp add: split)
  ultimately show ?thesis by (simp add: pred_at_def)
qed

lemma descend_level:
  assumes inv: "sl_inv h s as" and hd: "sl_head s = Some hp" and dc: "down_closed (sl_comp s) go"
  shows "i < MAX_LEVEL \<Longrightarrow> cur \<in> set (hp # at_level h i (pre_of h go as)) \<Longrightarrow>
         descend h go i cur = Some (Inr (pred_at h hp go as 0))"
proof (induction i arbitrary: cur)
  case 0
  then show ?case using advance_level [OF inv hd _ dc] by simp
next
  case (Suc i)
  have "advance h go (Suc i) cur = Some (Inr (pred_at h hp go as (Suc i)))"
    using advance_level [OF inv hd _ dc] Suc.prems by simp
  moreover have "pred_at h hp go as (Suc i) \<in> set (hp # at_level h i (pre_of h go as))"
    using pred_at_in [of h hp go as "Suc i"] at_level_mono [of i "Suc i" h "pre_of h go as"]
    by auto
  ultimately show ?case using Suc.IH Suc.prems by simp
qed

lemma descend_update_level:
  assumes inv: "sl_inv h s as" and hd: "sl_head s = Some hp" and dc: "down_closed (sl_comp s) go"
  shows "i < MAX_LEVEL \<Longrightarrow> cur \<in> set (hp # at_level h i (pre_of h go as)) \<Longrightarrow>
         length update = MAX_LEVEL \<Longrightarrow>
         \<exists>u. descend_update h go i cur update = Some (Inr (pred_at h hp go as 0, u)) \<and>
             length u = MAX_LEVEL \<and>
             (\<forall>j<MAX_LEVEL. u ! j = (if j \<le> i then pred_at h hp go as j else update ! j))"
proof (induction i arbitrary: cur update)
  case 0
  then show ?case using advance_level [OF inv hd _ dc, of 0 cur]
    by (auto simp: set_update_def nth_list_update)
next
  case (Suc i)
  let ?c = "pred_at h hp go as (Suc i)"
  have adv: "advance h go (Suc i) cur = Some (Inr ?c)"
    using advance_level [OF inv hd _ dc] Suc.prems by simp
  have c: "?c \<in> set (hp # at_level h i (pre_of h go as))"
    using pred_at_in [of h hp go as "Suc i"] at_level_mono [of i "Suc i" h "pre_of h go as"]
    by auto
  have len: "length (update[Suc i := ?c]) = MAX_LEVEL" using Suc.prems by simp
  from Suc.IH [OF _ c len] Suc.prems obtain u where
    u: "descend_update h go i ?c (update[Suc i := ?c]) = Some (Inr (pred_at h hp go as 0, u))"
       "length u = MAX_LEVEL"
       "\<forall>j<MAX_LEVEL. u ! j = (if j \<le> i then pred_at h hp go as j else update[Suc i := ?c] ! j)"
    by auto
  show ?case
  proof (intro exI conjI allI impI)
    show "descend_update h go (Suc i) cur update = Some (Inr (pred_at h hp go as 0, u))"
      using adv u(1) Suc.prems by (simp add: set_update_def)
    show "length u = MAX_LEVEL" by (rule u(2))
    fix j assume "j < MAX_LEVEL"
    with u(3) Suc.prems show "u ! j = (if j \<le> Suc i then pred_at h hp go as j else update ! j)"
      by (auto simp: nth_list_update le_Suc_eq)
  qed
qed

lemma succ_of_pred:
  assumes inv: "sl_inv h s as" and hd: "sl_head s = Some hp" and i: "i < MAX_LEVEL"
  shows "forward_at h (pred_at h hp go as i) i = Inr (first_of (at_level h i (post_of h go as)))"
proof -
  let ?pre = "at_level h i (pre_of h go as)" and ?post = "at_level h i (post_of h go as)"
  have "hp # ?pre = butlast (hp # ?pre) @ [pred_at h hp go as i]"
    unfolding pred_at_def by (rule append_butlast_last_id [symmetric]) simp
  then obtain w where w: "hp # ?pre = w @ [pred_at h hp go as i]" ..
  have "lseg h i (Some hp) ((hp # ?pre) @ ?post) None"
    using sl_inv_head_seg [OF inv hd i, of go] by simp
  then obtain m where "lseg h i (Some hp) (w @ [pred_at h hp go as i]) m" and "lseg h i m ?post None"
    unfolding lseg_append w by blast
  then show ?thesis
    using lseg_last_link lseg_head by (fastforce simp: first_of_def)
qed

lemma swo_irrefl: "strict_weak_order cmp \<Longrightarrow> \<not> cmp x x"
  by (simp add: strict_weak_order_def)

lemma swo_trans: "strict_weak_order cmp \<Longrightarrow> cmp x y \<Longrightarrow> cmp y z \<Longrightarrow> cmp x z"
  unfolding strict_weak_order_def by blast

lemma swo_asym: "strict_weak_order cmp \<Longrightarrow> cmp x y \<Longrightarrow> \<not> cmp y x"
  using swo_irrefl swo_trans by metis

lemma swo_equiv_trans:
  "strict_weak_order cmp \<Longrightarrow> equiv_keys cmp x y \<Longrightarrow> equiv_keys cmp y z \<Longrightarrow> equiv_keys cmp x z"
  unfolding strict_weak_order_def by blast

lemma down_closed_lower: "strict_weak_order cmp \<Longrightarrow> down_closed cmp (\<lambda>v. cmp v key)"
  unfolding down_closed_def using swo_trans by metis

lemma down_closed_upper: "strict_weak_order cmp \<Longrightarrow> down_closed cmp (\<lambda>v. \<not> cmp key v)"
  unfolding down_closed_def using swo_trans by metis

lemma collect_lseg:
  "lseg h 0 first as lst \<Longrightarrow> lst \<notin> Some ` set as \<Longrightarrow>
   collect h first lst out = Some (Inr (out @ pos_list h as))"
proof (induction as arbitrary: first out)
  case Nil
  then show ?case by (subst collect.simps) (simp add: iter_eq_def pos_list_def)
next
  case (Cons a as)
  from Cons.prems have "collect h (forward (h ! a) ! 0) lst (out @ [(Some a, key_at h a)]) =
      Some (Inr ((out @ [(Some a, key_at h a)]) @ pos_list h as))"
    by (intro Cons.IH) auto
  with Cons.prems show ?case
    by (subst collect.simps)
       (auto simp: iter_eq_def iter_deref_def iter_incr_def node_at_def key_at_def pos_list_def)
qed

lemma sl_inv_chain0:
  "sl_inv h s as \<Longrightarrow> sl_head s = Some hp \<Longrightarrow> lseg h 0 (forward (h ! hp) ! 0) as None"
  using MAX_LEVEL_def by (fastforce simp: sl_inv_def)

lemma sl_inv_begin:
  "sl_inv h s as \<Longrightarrow> begin_sl h s = Inr (first_of as)"
  unfolding begin_sl_def
  by (auto simp: sl_inv_def forward_at_def first_of_def MAX_LEVEL_def dest!: lseg_head spec [of _ 0])

lemma sl_inv_positions:
  assumes "sl_inv h s as"
  shows "positions h s = Some (Inr (pos_list h as))"
proof -
  from assms obtain hp where hp: "sl_head s = Some hp" by (auto simp: sl_inv_def)
  have seg: "lseg h 0 (first_of as) as None"
    using sl_inv_chain0 [OF assms hp] lseg_head [of h 0 _ as] by (fastforce simp: first_of_def)
  show ?thesis
    using sl_inv_begin [OF assms] collect_lseg [OF seg, of "[]"]
    by (simp add: positions_def end_sl_def)
qed

lemma first_pos_dropWhile:
  "first_pos Q (pos_list h as) = first_of (dropWhile (\<lambda>a. \<not> Q (key_at h a)) as)"
  by (induction as) (auto simp: first_pos_def pos_list_def first_of_def)

lemma sl_inv_search:
  assumes inv: "sl_inv h s as" and hd: "sl_head s = Some hp" and dc: "down_closed (sl_comp s) go"
  shows "bind_r (descend h go (sl_max_level s) hp) (\<lambda>c. Some (forward_at h c 0)) =
         Some (Inr (first_of (post_of h go as)))"
proof -
  have "sl_max_level s < MAX_LEVEL" using inv by (auto simp: sl_inv_def)
  then have "descend h go (sl_max_level s) hp = Some (Inr (pred_at h hp go as 0))"
    by (intro descend_level [OF inv hd dc]) simp_all
  moreover have "forward_at h (pred_at h hp go as 0) 0 = Inr (first_of (post_of h go as))"
    using succ_of_pred [OF inv hd, of 0 go] by (simp add: MAX_LEVEL_def)
  ultimately show ?thesis by simp
qed

lemma sl_inv_lower_bound:
  assumes inv: "sl_inv h s as"
  shows "lower_bound h s key =
         Some (Inr (first_pos (\<lambda>v. \<not> sl_comp s v key) (pos_list h as)))"
proof -
  from inv obtain hp where hp: "sl_head s = Some hp" and swo: "strict_weak_order (sl_comp s)"
    by (auto simp: sl_inv_def)
  show ?thesis
    using sl_inv_search [OF inv hp down_closed_lower [OF swo, of key]] hp
    by (simp add: lower_bound_def lower_bound_impl_def first_pos_dropWhile post_of_def)
qed

lemma sl_inv_upper_bound:
  assumes inv: "sl_inv h s as"
  shows "upper_bound h s key =
         Some (Inr (first_pos (\<lambda>v. sl_comp s key v) (pos_list h as)))"
proof -
  from inv obtain hp where hp: "sl_head s = Some hp" and swo: "strict_weak_order (sl_comp s)"
    by (auto simp: sl_inv_def)
  show ?thesis
    using sl_inv_search [OF inv hp down_closed_upper [OF swo, of key]] hp
    by (simp add: upper_bound_def upper_bound_impl_def first_pos_dropWhile post_of_def)
qed

lemma set_forward_ok:
  "a < length h \<Longrightarrow> i < length (forward (h ! a)) \<Longrightarrow>
   set_forward h a i q = Inr (h[a := (h ! a)\<lparr>forward := (forward (h ! a))[i := q]\<rparr>])"
  by (simp add: set_forward_def)

lemma link_update_length [simp]: "length (link_update h a i q) = length h"
  by (simp add: link_update_def)

lemma link_update_fields [simp]:
  "b < length h \<Longrightarrow> node_value (link_update h a i q ! b) = node_value (h ! b)"
  "b < length h \<Longrightarrow> level (link_update h a i q ! b) = level (h ! b)"
  "b < length h \<Longrightarrow> length (forward (link_update h a i q ! b)) = length (forward (h ! b))"
  by (cases "b = a"; simp add: link_update_def)+

lemma link_update_forward:
  "b < length h \<Longrightarrow> i < length (forward (h ! a)) \<Longrightarrow>
   forward (link_update h a i q ! b) ! j = (if b = a \<and> j = i then q else forward (h ! b) ! j)"
  by (cases "b = a"; cases "j = i"; simp add: link_update_def)

lemma set_forward_link:
  "a < length h \<Longrightarrow> i < length (forward (h ! a)) \<Longrightarrow>
   set_forward h a i q = Inr (link_update h a i q)"
  by (simp add: set_forward_def link_update_def)

lemma splice_effect:
  assumes "distinct is" and "n < length h"
    and "\<And>i. i \<in> set is \<Longrightarrow> i < length update \<and> update ! i < length h \<and> update ! i \<noteq> n \<and>
           i < length (forward (h ! (update ! i))) \<and> i < length (forward (h ! n))"
  shows "\<exists>h'. splice h update n is = Inr h' \<and> length h' = length h \<and>
     (\<forall>a<length h. node_value (h' ! a) = node_value (h ! a) \<and> level (h' ! a) = level (h ! a) \<and>
        length (forward (h' ! a)) = length (forward (h ! a)) \<and>
        (\<forall>j. forward (h' ! a) ! j =
           (if j \<in> set is \<and> a = update ! j then Some n
            else if a = n \<and> j \<in> set is then forward (h ! (update ! j)) ! j
            else forward (h ! a) ! j)) \<and>
        (a \<noteq> n \<and> (\<forall>j\<in>set is. a \<noteq> update ! j) \<longrightarrow> h' ! a = h ! a))"
  using assms
proof (induction "is" arbitrary: h)
  case Nil
  then show ?case by simp
next
  case (Cons i "is")
  define u where "u = update ! i"
  define h2 where "h2 = link_update (link_update h n i (forward (h ! u) ! i)) u i (Some n)"
  have i: "i < length update" "u < length h" "u \<noteq> n" "i < length (forward (h ! u))"
    "i < length (forward (h ! n))"
    using Cons.prems(3) [of i] by (simp_all add: u_def)
  have step: "splice h update n (i # is) = splice h2 update n is"
    using i Cons.prems(2) by (simp add: forward_at_def set_forward_link h2_def u_def [symmetric])
  have len2: "length h2 = length h" by (simp add: h2_def)
  have nd: "node_value (h2 ! a) = node_value (h ! a) \<and>
      level (h2 ! a) = level (h ! a) \<and> length (forward (h2 ! a)) = length (forward (h ! a))"
    if "a < length h" for a
    using that by (simp add: h2_def)
  have fw: "forward (h2 ! a) ! j =
      (if j = i \<and> a = u then Some n
       else if a = n \<and> j = i then forward (h ! u) ! i
       else forward (h ! a) ! j)" if "a < length h" for a j
    using that i Cons.prems(2) by (auto simp: link_update_forward h2_def)
  have same: "h2 ! a = h ! a" if "a \<noteq> n" "a \<noteq> u" for a
    using that by (simp add: h2_def link_update_def)
  have pre: "j < length update \<and> update ! j < length h2 \<and> update ! j \<noteq> n \<and>
           j < length (forward (h2 ! (update ! j))) \<and> j < length (forward (h2 ! n))"
    if "j \<in> set is" for j
    using Cons.prems(3) [of j] that nd Cons.prems(2) len2 by simp
  have "distinct is" "n < length h2" using Cons.prems(1,2) len2 by simp_all
  from Cons.IH [OF this pre] obtain h' where
    h': "splice h2 update n is = Inr h'" "length h' = length h2"
     "\<And>a. a < length h2 \<Longrightarrow> node_value (h' ! a) = node_value (h2 ! a) \<and> level (h' ! a) = level (h2 ! a) \<and>
        length (forward (h' ! a)) = length (forward (h2 ! a))"
     "\<And>a j. a < length h2 \<Longrightarrow> forward (h' ! a) ! j =
           (if j \<in> set is \<and> a = update ! j then Some n
            else if a = n \<and> j \<in> set is then forward (h2 ! (update ! j)) ! j
            else forward (h2 ! a) ! j)"
     "\<And>a. a < length h2 \<Longrightarrow> a \<noteq> n \<and> (\<forall>j\<in>set is. a \<noteq> update ! j) \<Longrightarrow> h' ! a = h2 ! a"
    by blast
  show ?case
  proof (intro exI conjI allI impI)
    show "splice h update n (i # is) = Inr h'" using step h'(1) by simp
    show "length h' = length h" using h'(2) len2 by simp
  next
    fix a assume a: "a < length h"
    with h'(3) [of a] nd [of a] len2 show "node_value (h' ! a) = node_value (h ! a)"
      "level (h' ! a) = level (h ! a)" "length (forward (h' ! a)) = length (forward (h ! a))"
      by simp_all
    {
      assume "a \<noteq> n \<and> (\<forall>j\<in>set (i # is). a \<noteq> update ! j)"
      then show "h' ! a = h ! a"
        using h'(5) [of a] same [of a] a len2 by (auto simp: u_def)
    }
    fix j
    have eq: "forward (h' ! a) ! j =
           (if j \<in> set is \<and> a = update ! j then Some n
            else if a = n \<and> j \<in> set is then forward (h2 ! (update ! j)) ! j
            else forward (h2 ! a) ! j)"
      using h'(4) [of a j] a len2 by simp
    show "forward (h' ! a) ! j =
           (if j \<in> set (i # is) \<and> a = update ! j then Some n
            else if a = n \<and> j \<in> set (i # is) then forward (h ! (update ! j)) ! j
            else forward (h ! a) ! j)"
    proof (cases "j \<in> set is")
      case True
      then have ji: "j \<noteq> i" using Cons.prems(1) by auto
      have uj: "update ! j < length h" "update ! j \<noteq> n" using Cons.prems(3) [of j] True by simp_all
      show ?thesis
        using eq True ji uj fw [OF uj(1), of j] fw [OF a, of j] by simp
    next
      case False
      show ?thesis
        using eq False fw [OF a, of j] by (auto simp: u_def)
    qed
  qed
qed

lemma reset_update_effect:
  "(\<And>i. i \<in> set is \<Longrightarrow> i < length u) \<Longrightarrow>
   \<exists>u'. reset_update u hp is = Inr u' \<and> length u' = length u \<and>
        (\<forall>j. u' ! j = (if j \<in> set is then hp else u ! j))"
proof (induction "is" arbitrary: u)
  case Nil
  then show ?case by simp
next
  case (Cons i "is")
  have i: "i < length u" using Cons.prems [of i] by simp
  have "\<And>j. j \<in> set is \<Longrightarrow> j < length (u[i := hp])" using Cons.prems by simp
  from Cons.IH [OF this] obtain u' where
    u': "reset_update (u[i := hp]) hp is = Inr u'" "length u' = length u"
        "\<And>j. u' ! j = (if j \<in> set is then hp else u[i := hp] ! j)"
    by auto
  show ?case
  proof (intro exI conjI allI)
    show "reset_update u hp (i # is) = Inr u'" using i u'(1) by (simp add: set_update_def)
    show "length u' = length u" by (rule u'(2))
    fix j show "u' ! j = (if j \<in> set (i # is) then hp else u ! j)"
      using u'(3) [of j] i by (auto simp: nth_list_update)
  qed
qed

lemma sl_inv_old:
  assumes "sl_inv h s as" and "sl_head s = Some hp" and "a \<in> set (hp # as)"
  shows "a < length h"
proof (cases "a = hp")
  case True
  with assms show ?thesis by (auto simp: sl_inv_def)
next
  case False
  with assms(3) have "a \<in> set as" by simp
  with lseg_valid [OF sl_inv_chain0 [OF assms(1,2)]] show ?thesis by blast
qed

lemma sl_inv_distinct:
  "sl_inv h s as \<Longrightarrow> sl_head s = Some hp \<Longrightarrow> distinct (hp # as)"
  by (auto simp: sl_inv_def)

lemma lseg_snoc:
  "lseg h i p (xs @ [a]) q =
   (lseg h i p xs (Some a) \<and> a < length h \<and> i < length (forward (h ! a)) \<and> forward (h ! a) ! i = q)"
  by (auto simp: lseg_append)

lemma sl_inv_after_link:
  fixes h h2 :: "'a heap"
  assumes inv: "sl_inv h s as" and hd: "sl_head s = Some hp"
    and L: "L < MAX_LEVEL"
    and len: "length h2 = length h + 1"
    and old: "\<And>a. a < length h \<Longrightarrow> node_value (h2 ! a) = node_value (h ! a) \<and>
                level (h2 ! a) = level (h ! a) \<and>
                length (forward (h2 ! a)) = length (forward (h ! a))"
    and links: "\<And>a j. a < length h \<Longrightarrow> forward (h2 ! a) ! j =
                (if j \<le> L \<and> a = pred_at h hp go as j then Some (length h) else forward (h ! a) ! j)"
    and new: "node_value (h2 ! length h) = v" "level (h2 ! length h) = L"
             "length (forward (h2 ! length h)) = L + 1"
    and new_links: "\<And>j. j \<le> L \<Longrightarrow>
             forward (h2 ! length h) ! j = forward (h ! pred_at h hp go as j) ! j"
    and below: "\<And>a. a \<in> set (pre_of h go as) \<Longrightarrow> sl_comp s (key_at h a) v"
    and above: "\<And>a. a \<in> set (post_of h go as) \<Longrightarrow> sl_comp s v (key_at h a)"
    and s': "sl_head s' = Some hp" "sl_comp s' = sl_comp s"
            "sl_max_level s' = max (sl_max_level s) L" "sl_size s' = sl_size s + 1"
  shows "sl_inv h2 s' (pre_of h go as @ length h # post_of h go as)"
proof -
  define n where "n = length h"
  define pre where "pre = pre_of h go as"
  define post where "post = post_of h go as"
  have as: "as = pre @ post" by (simp add: pre_def post_def pre_post)
  have dist: "distinct (hp # pre @ post)" using sl_inv_distinct [OF inv hd] as by simp
  have lt: "a < n" if "a \<in> set (hp # pre @ post)" for a
    using sl_inv_old [OF inv hd, of a] that as by (simp add: n_def)
  have key_old: "key_at h2 a = key_at h a" if "a < n" for a
    using old [of a] that by (simp add: key_at_def n_def)
  have lvl_old: "level_at h2 a = level_at h a" if "a < n" for a
    using old [of a] that by (simp add: level_at_def n_def)
  have lvl_new: "level_at h2 n = L" using new by (simp add: level_at_def n_def)
  have at_old: "at_level h2 i xs = at_level h i xs" if "set xs \<subseteq> set (hp # pre @ post)" for i xs
    unfolding at_level_def using that lt lvl_old by (intro filter_cong) auto
  have at_new: "at_level h2 i (pre @ n # post) =
      at_level h i pre @ (if i \<le> L then [n] else []) @ at_level h i post" for i
  proof -
    have "at_level h2 i pre = at_level h i pre" "at_level h2 i post = at_level h i post"
      by (rule at_old; auto)+
    moreover have "at_level h2 i [n] = (if i \<le> L then [n] else [])"
      using lvl_new by (simp add: at_level_def)
    ultimately show ?thesis
      using at_level_append [of h2 i pre "[n] @ post"] at_level_append [of h2 i "[n]" post]
      by simp
  qed
  have inv_parts:
    "hp < length h" "hp \<notin> set as" "MAX_LEVEL \<le> length (forward (h ! hp))"
    "sl_max_level s < MAX_LEVEL" "sl_size s = length as" "strict_weak_order (sl_comp s)"
    "sorted_wrt (sl_comp s) (map (key_at h) as)"
    "\<And>a. a \<in> set as \<Longrightarrow> length (forward (h ! a)) = level_at h a + 1 \<and> level_at h a \<le> sl_max_level s"
    using inv hd by (auto simp: sl_inv_def)
  have sorted: "sorted_wrt (sl_comp s) (map (key_at h2) (pre @ n # post))"
  proof -
    have "map (key_at h2) pre = map (key_at h) pre" "map (key_at h2) post = map (key_at h) post"
      using key_old lt by auto
    moreover have "key_at h2 n = v" using new by (simp add: key_at_def n_def)
    ultimately have eq: "map (key_at h2) (pre @ n # post) =
        map (key_at h) pre @ v # map (key_at h) post"
      by simp
    have base: "sorted_wrt (sl_comp s) (map (key_at h) pre @ map (key_at h) post)"
      using inv_parts(7) as by simp
    have b: "\<And>a. a \<in> set pre \<Longrightarrow> sl_comp s (key_at h a) v"
      and a: "\<And>a. a \<in> set post \<Longrightarrow> sl_comp s v (key_at h a)"
      using below above by (simp_all add: pre_def post_def)
    show ?thesis
      unfolding eq using base a b by (auto simp: sorted_wrt_append)
  qed
  have chains: "lseg h2 i (forward (h2 ! hp) ! i) (at_level h2 i (pre @ n # post)) None"
    if i: "i < MAX_LEVEL" for i
  proof -
    define P where "P = at_level h i pre"
    define Q where "Q = at_level h i post"
    define p where "p = pred_at h hp go as i"
    have PQ: "set P \<subseteq> set pre" "set Q \<subseteq> set post"
      using at_level_subset by (auto simp: P_def Q_def)
    have seg: "lseg h i (Some hp) (hp # P @ Q) None"
      using sl_inv_head_seg [OF inv hd i, of go] by (simp add: P_def Q_def pre_def post_def)
    have same: "same_link h h2 i a" if "a \<in> set (hp # P @ Q)" "i \<le> L \<longrightarrow> a \<noteq> p" for a
    proof -
      have "a < n" using that(1) PQ lt by auto
      then show ?thesis
        using old [of a] links [of a i] that(2) len by (auto simp: same_link_def n_def p_def)
    qed
    have hp2: "hp < length h2" "i < length (forward (h2 ! hp))"
      using old [of hp] inv_parts(1,3) len i by simp_all
    show ?thesis
    proof (cases "i \<le> L")
      case False
      have "lseg h2 i (Some hp) (hp # P @ Q) None"
        by (rule lseg_frame [OF seg]) (use same False in auto)
      then show ?thesis using at_new [of i] False by (simp add: P_def Q_def)
    next
      case True
      have "hp # P = butlast (hp # P) @ [p]"
        unfolding p_def pred_at_def P_def pre_def
        by (rule append_butlast_last_id [symmetric]) simp
      then obtain W where W: "hp # P = W @ [p]" ..
      from seg have "lseg h i (Some hp) ((hp # P) @ Q) None" by simp
      then have "lseg h i (Some hp) ((W @ [p]) @ Q) None" unfolding W .
      then obtain m where
        segW: "lseg h i (Some hp) W (Some p)" and
        p: "p < length h" "i < length (forward (h ! p))" "forward (h ! p) ! i = m" and
        segQ: "lseg h i m Q None"
        by (auto simp: lseg_append)
      have dW: "distinct (W @ [p] @ Q)"
      proof -
        have "distinct ((hp # P) @ Q)"
          using dist by (auto simp: P_def Q_def at_level_def)
        then have "distinct ((W @ [p]) @ Q)" unfolding W .
        then show ?thesis by simp
      qed
      have W_in: "set W \<subseteq> set (hp # P @ Q)" "set Q \<subseteq> set (hp # P @ Q)"
        using W by (auto simp: Cons_eq_append_conv)
      have sameW: "same_link h h2 i a" if "a \<in> set W" for a
      proof (rule same)
        show "a \<in> set (hp # P @ Q)" using that W_in by blast
        show "i \<le> L \<longrightarrow> a \<noteq> p" using that dW by auto
      qed
      have sameQ: "same_link h h2 i a" if "a \<in> set Q" for a
      proof (rule same)
        show "a \<in> set (hp # P @ Q)" using that W_in by blast
        show "i \<le> L \<longrightarrow> a \<noteq> p" using that dW by auto
      qed
      have "lseg h2 i (Some hp) W (Some p)"
        by (rule lseg_frame [OF segW]) (rule sameW)
      moreover have "lseg h2 i (Some p) [p] (Some n)"
        using p old [of p] links [of p i] True len by (simp add: n_def p_def)
      moreover have "lseg h2 i (Some n) [n] m"
        using new new_links [of i] True p(3) len by (simp add: n_def p_def)
      moreover have "lseg h2 i m Q None"
        by (rule lseg_frame [OF segQ]) (rule sameQ)
      ultimately have "lseg h2 i (Some hp) (W @ [p] @ [n] @ Q) None"
        unfolding lseg_append by blast
      then have "lseg h2 i (Some hp) (hp # P @ n # Q) None"
        using W by (metis append_Cons append_Nil append_assoc)
      then show ?thesis using at_new [of i] True by (simp add: P_def Q_def)
    qed
  qed
  have levels: "length (forward (h2 ! a)) = level_at h2 a + 1 \<and> level_at h2 a \<le> sl_max_level s'"
    if "a \<in> set (pre @ n # post)" for a
  proof (cases "a = n")
    case True
    then show ?thesis using new s'(3) by (simp add: level_at_def n_def)
  next
    case False
    with that have a: "a \<in> set as" by (simp add: as)
    then have "a < n" using lt as by simp
    then show ?thesis
      using inv_parts(8) [OF a] old [of a] s'(3) by (auto simp: level_at_def n_def)
  qed
  have "hp \<notin> set (pre @ n # post)" using dist lt [of hp] by auto
  moreover have "distinct (pre @ n # post)" using dist lt by auto
  moreover have "hp < length h2" using inv_parts(1) len by simp
  moreover have "MAX_LEVEL \<le> length (forward (h2 ! hp))"
    using old [of hp] inv_parts(1,3) by simp
  moreover have "sl_max_level s' < MAX_LEVEL" using s'(3) inv_parts(4) L by simp
  moreover have "sl_size s' = length (pre @ n # post)" using s'(4) inv_parts(5) as by simp
  ultimately show ?thesis
    unfolding sl_inv_def using s'(1,2) inv_parts(6) sorted levels chains
    by (simp add: pre_def [symmetric] post_def [symmetric] n_def [symmetric])
qed

lemma equiv_keys_sym: "equiv_keys cmp x y \<Longrightarrow> equiv_keys cmp y x"
  by (simp add: equiv_keys_def)

lemma swo_less_equiv:
  assumes swo: "strict_weak_order cmp" and xy: "cmp x y" and yz: "equiv_keys cmp y z"
  shows "cmp x z"
proof (rule ccontr)
  assume n: "\<not> cmp x z"
  have "\<not> cmp z x"
  proof
    assume "cmp z x"
    then have "cmp z y" using xy swo_trans [OF swo] by blast
    with yz show False by (simp add: equiv_keys_def)
  qed
  with n have "equiv_keys cmp x z" by (simp add: equiv_keys_def)
  then have "equiv_keys cmp x y"
    using swo_equiv_trans [OF swo] equiv_keys_sym [OF yz] by blast
  with xy show False by (simp add: equiv_keys_def)
qed

lemma sl_inv_parts:
  assumes "sl_inv h s as" and "sl_head s = Some hp"
  shows "hp < length h" "hp \<notin> set as" "MAX_LEVEL \<le> length (forward (h ! hp))"
    "sl_max_level s < MAX_LEVEL" "sl_size s = length as" "strict_weak_order (sl_comp s)"
    "sorted_wrt (sl_comp s) (map (key_at h) as)"
    "\<And>a. a \<in> set as \<Longrightarrow> length (forward (h ! a)) = level_at h a + 1 \<and> level_at h a \<le> sl_max_level s"
  using assms by (auto simp: sl_inv_def)

lemma pred_at_above:
  assumes inv: "sl_inv h s as" and hd: "sl_head s = Some hp" and j: "sl_max_level s < j"
  shows "pred_at h hp go as j = hp"
proof -
  have "at_level h j (pre_of h go as) = []"
    unfolding at_level_def filter_empty_conv
  proof
    fix a assume "a \<in> set (pre_of h go as)"
    then have "a \<in> set as" using pre_post [of h go as] by (metis Un_iff set_append)
    from sl_inv_parts(8) [OF inv hd this] j show "\<not> j \<le> level_at h a" by simp
  qed
  then show ?thesis by (simp add: pred_at_def)
qed

text \<open>The search of \<open>insert_impl\<close>: the vector \<open>update\<close> holds the predecessor at every level.\<close>

lemma insert_search:
  assumes inv: "sl_inv h s as" and hd: "sl_head s = Some hp"
    and dc: "down_closed (sl_comp s) go"
  shows "\<exists>u. descend_update h go (sl_max_level s) hp (replicate MAX_LEVEL hp) =
           Some (Inr (pred_at h hp go as 0, u)) \<and> length u = MAX_LEVEL \<and>
           (\<forall>j<MAX_LEVEL. u ! j = pred_at h hp go as j)"
proof -
  have M: "sl_max_level s < MAX_LEVEL" by (rule sl_inv_parts(4) [OF inv hd])
  from descend_update_level [OF inv hd dc M, of hp "replicate MAX_LEVEL hp"]
  obtain u where u: "descend_update h go (sl_max_level s) hp (replicate MAX_LEVEL hp) =
           Some (Inr (pred_at h hp go as 0, u))" "length u = MAX_LEVEL"
     "\<And>j. j < MAX_LEVEL \<Longrightarrow> u ! j = (if j \<le> sl_max_level s then pred_at h hp go as j
          else replicate MAX_LEVEL hp ! j)"
    by auto
  have "u ! j = pred_at h hp go as j" if "j < MAX_LEVEL" for j
    using u(3) [OF that] that pred_at_above [OF inv hd, of j go] by (cases "j \<le> sl_max_level s") auto
  with u(1,2) show ?thesis by blast
qed

lemma insert_dup:
  assumes inv: "sl_inv h s as" and a: "a \<in> set as"
    and eq: "equiv_keys (sl_comp s) (key_at h a) v"
  shows "insert_impl h s v = Some (Inr (h, s, Some a, False))"
proof -
  from inv obtain hp where hd: "sl_head s = Some hp" by (auto simp: sl_inv_def)
  define go where "go = (\<lambda>x. sl_comp s x v)"
  note parts = sl_inv_parts [OF inv hd]
  have dc: "down_closed (sl_comp s) go"
    unfolding go_def by (rule down_closed_lower [OF parts(6)])
  have "a \<notin> set (pre_of h go as)"
    using pre_go [of a h go as] eq by (auto simp: go_def equiv_keys_def)
  then have "a \<in> set (post_of h go as)"
    using a pre_post [of h go as] by (metis Un_iff set_append)
  then obtain b rest where post: "post_of h go as = b # rest"
    by (cases "post_of h go as") auto
  have "b = a"
  proof (rule ccontr)
    assume "b \<noteq> a"
    with \<open>a \<in> set (post_of h go as)\<close> post have "a \<in> set rest" by simp
    moreover have "sorted_wrt (sl_comp s) (map (key_at h) (pre_of h go as @ b # rest))"
      using parts(7) pre_post [of h go as] post by simp
    ultimately have "sl_comp s (key_at h b) (key_at h a)"
      by (auto simp: sorted_wrt_append)
    then have "sl_comp s (key_at h b) v" by (rule swo_less_equiv [OF parts(6) _ eq])
    moreover have "\<not> go (key_at h b)"
      by (rule post_not_go [OF parts(7) dc]) (simp add: post)
    ultimately show False by (simp add: go_def)
  qed
  from insert_search [OF inv hd dc] obtain u where
    u: "descend_update h go (sl_max_level s) hp (replicate MAX_LEVEL hp) =
           Some (Inr (pred_at h hp go as 0, u))"
    by blast
  have fw: "forward_at h (pred_at h hp go as 0) 0 = Inr (Some a)"
    using succ_of_pred [OF inv hd, of 0 go] post \<open>b = a\<close> by (simp add: MAX_LEVEL_def first_of_def)
  have "a < length h" using sl_inv_old [OF inv hd, of a] a by simp
  then have m: "is_match h (sl_comp s) (Some a) v = Inr True"
    using eq by (simp add: is_match_def node_at_def equiv_keys_def key_at_def)
  show ?thesis
    using hd u fw m by (simp add: insert_impl_def go_def)
qed

lemma insert_fresh:
  fixes h :: "'a heap"
  assumes inv: "sl_inv h s as" and hd: "sl_head s = Some hp"
    and fresh: "\<And>a. a \<in> set as \<Longrightarrow> \<not> equiv_keys (sl_comp s) (key_at h a) v"
  shows "\<exists>h2 s2. insert_impl h s v = Some (Inr (h2, s2, Some (length h), True)) \<and>
      sl_inv h2 s2 (pre_of h (\<lambda>x. sl_comp s x v) as @ length h # post_of h (\<lambda>x. sl_comp s x v) as) \<and>
      length h2 = length h + 1 \<and>
      (\<forall>a<length h. a \<notin> set (hp # as) \<longrightarrow> h2 ! a = h ! a) \<and>
      (\<forall>a<length h. key_at h2 a = key_at h a) \<and> key_at h2 (length h) = v \<and>
      sl_head s2 = sl_head s \<and> sl_comp s2 = sl_comp s \<and>
      sl_gen s2 = snd (random_level (sl_gen s))"
proof -
  define go where "go = (\<lambda>x. sl_comp s x v)"
  define n where "n = length h"
  define M where "M = sl_max_level s"
  define pr where "pr = pred_at h hp go as"
  note parts = sl_inv_parts [OF inv hd]
  have dc: "down_closed (sl_comp s) go"
    unfolding go_def by (rule down_closed_lower [OF parts(6)])
  from insert_search [OF inv hd dc] obtain u where
    u: "descend_update h go M hp (replicate MAX_LEVEL hp) = Some (Inr (pr 0, u))"
       "length u = MAX_LEVEL" "\<And>j. j < MAX_LEVEL \<Longrightarrow> u ! j = pr j"
    unfolding M_def pr_def by blast
  have pr_old: "pr j \<in> set (hp # as)" for j
    using pred_at_in [of h hp go as j] at_level_subset [of h j "pre_of h go as"]
      pre_post [of h go as] unfolding pr_def by (metis UnCI insert_iff list.set(2) set_append subsetD)
  have pr_lt: "pr j < n" for j
    using sl_inv_old [OF inv hd pr_old [of j]] by (simp add: n_def)
  have pr_fw: "forward_at h (pr j) j = Inr (first_of (at_level h j (post_of h go as)))"
    if "j < MAX_LEVEL" for j
    unfolding pr_def by (rule succ_of_pred [OF inv hd that])
  have fw0: "forward_at h (pr 0) 0 = Inr (first_of (post_of h go as))"
    using pr_fw [of 0] by (simp add: MAX_LEVEL_def)
  have above: "sl_comp s v (key_at h a)" if "a \<in> set (post_of h go as)" for a
  proof -
    have "a \<in> set as" using that pre_post [of h go as] by (metis Un_iff set_append)
    from fresh [OF this] post_not_go [OF parts(7) dc that]
    show ?thesis by (simp add: equiv_keys_def go_def)
  qed
  have m: "is_match h (sl_comp s) (first_of (post_of h go as)) v = Inr False"
  proof (cases "post_of h go as")
    case Nil
    then show ?thesis by (simp add: first_of_def is_match_def)
  next
    case (Cons b rest)
    then have b: "b \<in> set (post_of h go as)" by simp
    then have "b \<in> set as" using pre_post [of h go as] by (metis Un_iff set_append)
    then have "b < length h" using sl_inv_old [OF inv hd, of b] by simp
    with above [OF b] Cons show ?thesis
      by (simp add: first_of_def is_match_def node_at_def key_at_def)
  qed
  obtain L g where rl: "random_level (sl_gen s) = (L, g)" by (cases "random_level (sl_gen s)")
  have L: "L < MAX_LEVEL"
    using random_level_le [of "sl_gen s"] rl by (simp add: MAX_LEVEL_def)
  define s1 where "s1 = s\<lparr>sl_gen := g\<rparr>"
  have "\<exists>u1 s2. (if L > sl_max_level s1
           then bind_e (reset_update u hp [sl_max_level s1 + 1 ..< L + 1])
                  (\<lambda>u. Inr (u, s1\<lparr>sl_max_level := L\<rparr>))
           else Inr (u, s1)) = Inr (u1, s2) \<and>
       length u1 = MAX_LEVEL \<and> (\<forall>j<MAX_LEVEL. u1 ! j = pr j) \<and>
       sl_head s2 = Some hp \<and> sl_comp s2 = sl_comp s \<and> sl_max_level s2 = max M L \<and>
       sl_size s2 = sl_size s \<and> sl_gen s2 = g"
  proof (cases "L > M")
    case False
    then show ?thesis using u(2,3) hd by (auto simp: s1_def M_def)
  next
    case True
    have "\<And>i. i \<in> set [M + 1 ..< L + 1] \<Longrightarrow> i < length u" using L u(2) by auto
    from reset_update_effect [OF this, where hp = hp] obtain u1 where
      u1: "reset_update u hp [M + 1 ..< L + 1] = Inr u1" "length u1 = length u"
          "\<And>j. u1 ! j = (if j \<in> set [M + 1 ..< L + 1] then hp else u ! j)"
      by blast
    have "u1 ! j = pr j" if "j < MAX_LEVEL" for j
      using u1(3) [of j] u(3) [OF that] pred_at_above [OF inv hd, of j go]
      by (auto simp: pr_def M_def)
    with u1(1,2) u(2) True hd show ?thesis by (auto simp: s1_def M_def)
  qed
  then obtain u1 s2 where
    reset: "(if L > sl_max_level s1
           then bind_e (reset_update u hp [sl_max_level s1 + 1 ..< L + 1])
                  (\<lambda>u. Inr (u, s1\<lparr>sl_max_level := L\<rparr>))
           else Inr (u, s1)) = Inr (u1, s2)"
    and u1: "length u1 = MAX_LEVEL" "\<And>j. j < MAX_LEVEL \<Longrightarrow> u1 ! j = pr j"
    and s2: "sl_head s2 = Some hp" "sl_comp s2 = sl_comp s" "sl_max_level s2 = max M L"
       "sl_size s2 = sl_size s" "sl_gen s2 = g"
    by blast
  define h1 where "h1 = h @ [SkipListNode_new v L]"
  have h1_old: "h1 ! a = h ! a" if "a < n" for a
    using that by (simp add: h1_def n_def nth_append)
  have h1_new: "h1 ! n = SkipListNode_new v L" by (simp add: h1_def n_def)
  have pre_splice: "i < length u1 \<and> u1 ! i < length h1 \<and> u1 ! i \<noteq> n \<and>
           i < length (forward (h1 ! (u1 ! i))) \<and> i < length (forward (h1 ! n))"
    if "i \<in> set [0 ..< L + 1]" for i
  proof -
    have i: "i < MAX_LEVEL" "i \<le> L" using that L by auto
    have "i < length (forward (h ! pr i))"
      using pr_fw [OF i(1)] by (auto simp: forward_at_def split: if_splits)
    then show ?thesis
      using i u1 pr_lt [of i] h1_old [of "pr i"] h1_new
      by (simp add: h1_def n_def SkipListNode_new_def)
  qed
  have "distinct [0 ..< L + 1]" "n < length h1" by (simp_all add: h1_def n_def)
  from splice_effect [OF this pre_splice] obtain h2 where
    h2: "splice h1 u1 n [0 ..< L + 1] = Inr h2" "length h2 = length h1"
      "\<And>a. a < length h1 \<Longrightarrow> node_value (h2 ! a) = node_value (h1 ! a) \<and>
          level (h2 ! a) = level (h1 ! a) \<and> length (forward (h2 ! a)) = length (forward (h1 ! a))"
      "\<And>a j. a < length h1 \<Longrightarrow> forward (h2 ! a) ! j =
           (if j \<in> set [0 ..< L + 1] \<and> a = u1 ! j then Some n
            else if a = n \<and> j \<in> set [0 ..< L + 1] then forward (h1 ! (u1 ! j)) ! j
            else forward (h1 ! a) ! j)"
      "\<And>a. a < length h1 \<Longrightarrow> a \<noteq> n \<and> (\<forall>j\<in>set [0 ..< L + 1]. a \<noteq> u1 ! j) \<Longrightarrow> h2 ! a = h1 ! a"
    by blast
  have len1: "length h1 = n + 1" by (simp add: h1_def n_def)
  define s3 where "s3 = s2\<lparr>sl_size := sl_size s2 + 1\<rparr>"
  have result: "insert_impl h s v = Some (Inr (h2, s3, Some n, True))"
    using hd u(1) [unfolded M_def go_def pr_def] fw0 [unfolded go_def pr_def] m [unfolded go_def]
      rl reset [unfolded s1_def M_def] h2(1) [unfolded h1_def n_def]
    by (simp add: insert_impl_def make_shared_def s3_def n_def)
  have old: "node_value (h2 ! a) = node_value (h ! a) \<and> level (h2 ! a) = level (h ! a) \<and>
                length (forward (h2 ! a)) = length (forward (h ! a))" if "a < length h" for a
    using h2(3) [of a] h1_old [of a] that len1 by (simp add: n_def)
  have links: "forward (h2 ! a) ! j =
      (if j \<le> L \<and> a = pred_at h hp go as j then Some (length h) else forward (h ! a) ! j)"
    if "a < length h" for a j
  proof -
    have a: "a < length h1" "a < n" "a \<noteq> n" using that len1 by (simp_all add: n_def)
    have "j \<le> L \<Longrightarrow> u1 ! j = pr j" using u1(2) [of j] L by simp
    then show ?thesis
      using h2(4) [OF a(1), of j] h1_old [OF a(2)] a(3)
      by (auto simp: pr_def n_def)
  qed
  have new: "node_value (h2 ! length h) = v" "level (h2 ! length h) = L"
             "length (forward (h2 ! length h)) = L + 1"
    using h2(3) [of n] h1_new len1 by (simp_all add: n_def [symmetric] SkipListNode_new_def)
  have new_links: "forward (h2 ! length h) ! j = forward (h ! pred_at h hp go as j) ! j"
    if "j \<le> L" for j
  proof -
    have "u1 ! j = pr j" using u1(2) [of j] L that by simp
    then show ?thesis
      using h2(4) [of n j] len1 that pr_lt [of j] h1_old [OF pr_lt [of j]]
      by (auto simp: n_def [symmetric] pr_def)
  qed
  have below: "sl_comp s (key_at h a) v" if "a \<in> set (pre_of h go as)" for a
    using pre_go [OF that] by (simp add: go_def)
  have s3: "sl_head s3 = Some hp" "sl_comp s3 = sl_comp s"
            "sl_max_level s3 = max (sl_max_level s) L" "sl_size s3 = sl_size s + 1"
    using s2 by (simp_all add: s3_def M_def)
  have len2: "length h2 = length h + 1" using h2(2) len1 by (simp add: n_def)
  have inv2: "sl_inv h2 s3 (pre_of h go as @ length h # post_of h go as)"
    by (rule sl_inv_after_link [OF inv hd L len2 old links new new_links below above s3])
  have untouched: "h2 ! a = h ! a" if "a < length h" "a \<notin> set (hp # as)" for a
  proof -
    have "a \<noteq> u1 ! j" if "j \<in> set [0 ..< L + 1]" for j
    proof -
      have "u1 ! j = pr j" using u1(2) [of j] L that by auto
      with pr_old [of j] \<open>a \<notin> set (hp # as)\<close> show ?thesis by auto
    qed
    then show ?thesis
      using h2(5) [of a] that(1) len1 h1_old [of a] by (auto simp: n_def)
  qed
  have keys: "key_at h2 a = key_at h a" if "a < length h" for a
    using old [OF that] by (simp add: key_at_def)
  show ?thesis
    using result inv2 len2 untouched keys new(1) s3 s2(5) rl hd
    by (auto simp: go_def n_def s3_def key_at_def)
qed

lemma footprint_inv:
  "sl_inv h s as \<Longrightarrow> sl_head s = Some hp \<Longrightarrow> footprint s as = set (hp # as)"
  by (simp add: footprint_def)

lemma footprint_bound:
  assumes "obj_inv h s as" and "a \<in> footprint s as"
  shows "a < length h"
proof (cases "sl_head s")
  case None
  with assms show ?thesis by (auto simp: obj_inv_def footprint_def sl_inv_def moved_from_def)
next
  case (Some hp)
  with assms have inv: "sl_inv h s as" by (auto simp: obj_inv_def moved_from_def)
  from sl_inv_old [OF inv Some, of a] assms(2) Some show ?thesis by (simp add: footprint_def)
qed

lemma sl_inv_frame:
  fixes h h' :: "'a heap"
  assumes inv: "sl_inv h s as" and len: "length h \<le> length h'"
    and same: "\<And>a. a \<in> footprint s as \<Longrightarrow> h' ! a = h ! a"
  shows "sl_inv h' s as"
proof -
  from inv obtain hp where hd: "sl_head s = Some hp" by (auto simp: sl_inv_def)
  note parts = sl_inv_parts [OF inv hd]
  have fp: "footprint s as = set (hp # as)" using hd by (simp add: footprint_def)
  have eq: "h' ! a = h ! a" if "a \<in> set (hp # as)" for a
    using same [of a] that fp by simp
  have lt: "a < length h'" if "a \<in> set (hp # as)" for a
    using sl_inv_old [OF inv hd that] len by simp
  have keys: "map (key_at h') as = map (key_at h) as"
    using eq by (simp add: key_at_def)
  have lv: "at_level h' i as = at_level h i as" for i
    unfolding at_level_def using eq by (intro filter_cong) (auto simp: level_at_def)
  have chain: "lseg h' i (forward (h' ! hp) ! i) (at_level h' i as) None" if "i < MAX_LEVEL" for i
  proof -
    have "lseg h i (forward (h ! hp) ! i) (at_level h i as) None"
      using inv hd that by (auto simp: sl_inv_def)
    then have "lseg h' i (forward (h ! hp) ! i) (at_level h i as) None"
    proof (rule lseg_frame)
      fix a assume "a \<in> set (at_level h i as)"
      then have "a \<in> set (hp # as)" using at_level_subset [of h i as] by auto
      then show "same_link h h' i a" using eq [of a] lt [of a] by (simp add: same_link_def)
    qed
    then show ?thesis using eq [of hp] lv by simp
  qed
  show ?thesis
    unfolding sl_inv_def
  proof (intro exI [of _ hp] conjI)
    show "sl_head s = Some hp" by (rule hd)
    show "hp < length h'" using parts(1) len by simp
    show "hp \<notin> set as" by (rule parts(2))
    show "distinct as" using sl_inv_distinct [OF inv hd] by simp
    show "MAX_LEVEL \<le> length (forward (h' ! hp))" using parts(3) eq [of hp] by simp
    show "sl_max_level s < MAX_LEVEL" by (rule parts(4))
    show "sl_size s = length as" by (rule parts(5))
    show "strict_weak_order (sl_comp s)" by (rule parts(6))
    show "sorted_wrt (sl_comp s) (map (key_at h') as)" unfolding keys by (rule parts(7))
    show "\<forall>a\<in>set as. length (forward (h' ! a)) = level_at h' a + 1 \<and>
            level_at h' a \<le> sl_max_level s"
      using parts(8) eq by (simp add: level_at_def)
    show "\<forall>i<MAX_LEVEL. lseg h' i (forward (h' ! hp) ! i) (at_level h' i as) None"
      using chain by blast
  qed
qed

lemma obj_inv_frame:
  "obj_inv h s as \<Longrightarrow> length h \<le> length h' \<Longrightarrow>
   (\<And>a. a \<in> footprint s as \<Longrightarrow> h' ! a = h ! a) \<Longrightarrow> obj_inv h' s as"
  unfolding obj_inv_def using sl_inv_frame by blast

lemma skip_list_new_inv:
  assumes "strict_weak_order cmp" and "skip_list_new h d cmp g = (h', s')"
  shows "sl_inv h' s' [] \<and> h' = h @ [SkipListNode_new d MAX_LEVEL] \<and> sl_head s' = Some (length h) \<and>
         sl_comp s' = cmp \<and> sl_gen s' = g"
  using assms
  by (auto simp: skip_list_new_def make_shared_def sl_inv_def at_level_def SkipListNode_new_def
      MAX_LEVEL_def)

lemma clear_inv:
  assumes inv: "sl_inv h s as" and hd: "sl_head s = Some hp"
  shows "\<exists>h' s'. clear h s = Inr (h', s') \<and> sl_inv h' s' [] \<and> length h' = length h \<and>
           (\<forall>a<length h. a \<noteq> hp \<longrightarrow> h' ! a = h ! a) \<and> sl_head s' = Some hp \<and>
           sl_comp s' = sl_comp s \<and> sl_gen s' = sl_gen s"
  using sl_inv_parts(1,6) [OF inv hd] hd
  by (auto simp: clear_def sl_inv_def at_level_def MAX_LEVEL_def)

lemma insert_inv:
  fixes h :: "'a heap"
  assumes inv: "sl_inv h s as"
  shows "\<exists>h' s' r as'. insert_sl h s v = Some (Inr (h', s', r)) \<and> sl_inv h' s' as' \<and>
      length h \<le> length h' \<and>
      (\<forall>a<length h. a \<notin> footprint s as \<longrightarrow> h' ! a = h ! a) \<and>
      footprint s' as' \<subseteq> footprint s as \<union> {length h ..< length h'} \<and>
      map (key_at h') as' = ins_key (sl_comp s) v (map (key_at h) as) \<and>
      sl_comp s' = sl_comp s \<and> sl_head s' = sl_head s"
proof -
  from inv obtain hp where hd: "sl_head s = Some hp" by (auto simp: sl_inv_def)
  have fp: "footprint s as = set (hp # as)" using hd by (simp add: footprint_def)
  show ?thesis
  proof (cases "\<exists>a\<in>set as. equiv_keys (sl_comp s) (key_at h a) v")
    case True
    then obtain a where a: "a \<in> set as" "equiv_keys (sl_comp s) (key_at h a) v" by blast
    have "ins_key (sl_comp s) v (map (key_at h) as) = map (key_at h) as"
      using True by (auto simp: ins_key_def)
    with insert_dup [OF inv a] inv show ?thesis
      by (auto simp: insert_sl_def)
  next
    case False
    then have fresh: "\<And>a. a \<in> set as \<Longrightarrow> \<not> equiv_keys (sl_comp s) (key_at h a) v" by blast
    define go where "go = (\<lambda>x. sl_comp s x v)"
    from insert_fresh [OF inv hd fresh] obtain h2 s2 where
      r: "insert_impl h s v = Some (Inr (h2, s2, Some (length h), True))"
         "sl_inv h2 s2 (pre_of h go as @ length h # post_of h go as)"
         "length h2 = length h + 1"
         "\<forall>a<length h. a \<notin> set (hp # as) \<longrightarrow> h2 ! a = h ! a"
         "\<forall>a<length h. key_at h2 a = key_at h a" "key_at h2 (length h) = v"
         "sl_head s2 = sl_head s" "sl_comp s2 = sl_comp s"
      unfolding go_def by blast
    have old: "a < length h" if "a \<in> set as" for a
      using sl_inv_old [OF inv hd, of a] that by simp
    have sub: "set (pre_of h go as) \<subseteq> set as" "set (post_of h go as) \<subseteq> set as"
      using pre_post [of h go as] by (metis Un_iff set_append subsetI)+
    have k1: "map (key_at h2) (pre_of h go as) = takeWhile (\<lambda>x. sl_comp s x v) (map (key_at h) as)"
      using r(5) old sub(1) by (auto simp: pre_of_def takeWhile_map go_def comp_def)
    have k2: "map (key_at h2) (post_of h go as) = dropWhile (\<lambda>x. sl_comp s x v) (map (key_at h) as)"
      using r(5) old sub(2) by (auto simp: post_of_def dropWhile_map go_def comp_def)
    have keys: "map (key_at h2) (pre_of h go as @ length h # post_of h go as) =
        ins_key (sl_comp s) v (map (key_at h) as)"
      using False k1 k2 r(6) by (auto simp: ins_key_def)
    have fp2: "footprint s2 (pre_of h go as @ length h # post_of h go as) \<subseteq>
        footprint s as \<union> {length h ..< length h2}"
      using sub r(3,7) hd by (auto simp: footprint_def)
    show ?thesis
      using r(1,2,3,4,7,8) keys fp2 fp unfolding insert_sl_def
      by (intro exI [of _ h2] exI [of _ s2] exI [of _ "(Some (length h), True)"]
          exI [of _ "pre_of h go as @ length h # post_of h go as"]) simp
  qed
qed

lemma extends_refl: "extends h s as h s as"
  by (simp add: extends_def)

lemma extends_trans:
  assumes "extends h s as h1 s1 as1" and "extends h1 s1 as1 h2 s2 as2"
  shows "extends h s as h2 s2 as2"
  unfolding extends_def
proof (intro conjI allI impI)
  show "length h \<le> length h2" using assms by (simp add: extends_def)
  show "sl_comp s2 = sl_comp s" "sl_head s2 = sl_head s" using assms by (simp_all add: extends_def)
  show "footprint s2 as2 \<subseteq> footprint s as \<union> {length h ..< length h2}"
  proof
    fix a assume "a \<in> footprint s2 as2"
    then have "a \<in> footprint s1 as1 \<or> (length h1 \<le> a \<and> a < length h2)"
      using assms(2) by (auto simp: extends_def)
    then show "a \<in> footprint s as \<union> {length h ..< length h2}"
      using assms by (auto simp: extends_def)
  qed
next
  fix a assume a: "a < length h" "a \<notin> footprint s as"
  then have "a \<notin> footprint s1 as1" using assms(1) by (auto simp: extends_def)
  moreover have "a < length h1" using a(1) assms(1) by (simp add: extends_def)
  ultimately have "h2 ! a = h1 ! a" using assms(2) by (simp add: extends_def)
  also have "h1 ! a = h ! a" using a assms(1) by (simp add: extends_def)
  finally show "h2 ! a = h ! a" .
qed

lemma insert_extends:
  fixes h :: "'a heap"
  assumes inv: "sl_inv h s as"
  shows "\<exists>h' s' r as'. insert_sl h s v = Some (Inr (h', s', r)) \<and> sl_inv h' s' as' \<and>
      extends h s as h' s' as' \<and>
      map (key_at h') as' = ins_key (sl_comp s) v (map (key_at h) as)"
  using insert_inv [OF inv, of v] unfolding extends_def by blast

lemma insert_all_inv:
  fixes h :: "'a heap"
  shows "sl_inv h s as \<Longrightarrow>
    \<exists>h' s' as'. insert_all h s vs = Some (Inr (h', s')) \<and> sl_inv h' s' as' \<and>
      extends h s as h' s' as' \<and>
      map (key_at h') as' = foldl (\<lambda>ks v. ins_key (sl_comp s) v ks) (map (key_at h) as) vs"
proof (induction vs arbitrary: h s as)
  case Nil
  then show ?case using extends_refl by fastforce
next
  case (Cons v vs)
  from insert_extends [OF Cons.prems, of v] obtain h1 s1 r as1 where
    i: "insert_sl h s v = Some (Inr (h1, s1, r))" "sl_inv h1 s1 as1" "extends h s as h1 s1 as1"
       "map (key_at h1) as1 = ins_key (sl_comp s) v (map (key_at h) as)"
    by blast
  from Cons.IH [OF i(2)] obtain h' s' as' where
    r: "insert_all h1 s1 vs = Some (Inr (h', s'))" "sl_inv h' s' as'" "extends h1 s1 as1 h' s' as'"
       "map (key_at h') as' = foldl (\<lambda>ks v. ins_key (sl_comp s1) v ks) (map (key_at h1) as1) vs"
    by blast
  have "sl_comp s1 = sl_comp s" using i(3) by (simp add: extends_def)
  with i r extends_trans [OF i(3) r(3)] show ?case by auto
qed

lemma copy_loop_inv:
  fixes h :: "'a heap"
  shows "sl_inv h s as \<Longrightarrow> lseg h 0 it bs None \<Longrightarrow> set bs \<inter> footprint s as = {} \<Longrightarrow>
    \<exists>h' s' as'. copy_loop h s it = Some (Inr (h', s')) \<and> sl_inv h' s' as' \<and>
      extends h s as h' s' as' \<and>
      map (key_at h') as' =
        foldl (\<lambda>ks v. ins_key (sl_comp s) v ks) (map (key_at h) as) (map (key_at h) bs)"
proof (induction bs arbitrary: h s as it)
  case Nil
  then show ?case using extends_refl by (subst copy_loop.simps) fastforce
next
  case (Cons b bs)
  from Cons.prems(2) have it: "it = Some b" and b: "b < length h" "0 < length (forward (h ! b))"
    and seg: "lseg h 0 (forward (h ! b) ! 0) bs None"
    by auto
  from insert_extends [OF Cons.prems(1), of "key_at h b"] obtain h1 s1 r as1 where
    i: "insert_sl h s (key_at h b) = Some (Inr (h1, s1, r))" "sl_inv h1 s1 as1"
       "extends h s as h1 s1 as1"
       "map (key_at h1) as1 = ins_key (sl_comp s) (key_at h b) (map (key_at h) as)"
    by blast
  have same: "h1 ! a = h ! a" if "a \<in> set (b # bs)" for a
  proof -
    have "a < length h" using lseg_valid [OF Cons.prems(2) that] by simp
    moreover have "a \<notin> footprint s as" using that Cons.prems(3) by auto
    ultimately show ?thesis using i(3) by (simp add: extends_def)
  qed
  have len: "length h \<le> length h1" using i(3) by (simp add: extends_def)
  have seg1: "lseg h1 0 (forward (h ! b) ! 0) bs None"
  proof (rule lseg_frame [OF seg])
    fix a assume a: "a \<in> set bs"
    then have "a < length h" using lseg_valid [OF seg a] by simp
    then show "same_link h h1 0 a" using same [of a] a len by (simp add: same_link_def)
  qed
  have disj: "set bs \<inter> footprint s1 as1 = {}"
  proof -
    have "a \<notin> footprint s1 as1" if "a \<in> set bs" for a
    proof -
      have "a < length h" using lseg_valid [OF seg that] by simp
      moreover have "a \<notin> footprint s as" using that Cons.prems(3) by auto
      ultimately show ?thesis using i(3) by (auto simp: extends_def)
    qed
    then show ?thesis by blast
  qed
  from Cons.IH [OF i(2) seg1 disj] obtain h' s' as' where
    r: "copy_loop h1 s1 (forward (h ! b) ! 0) = Some (Inr (h', s'))" "sl_inv h' s' as'"
       "extends h1 s1 as1 h' s' as'"
       "map (key_at h') as' =
          foldl (\<lambda>ks v. ins_key (sl_comp s1) v ks) (map (key_at h1) as1) (map (key_at h1) bs)"
    by blast
  have cmp: "sl_comp s1 = sl_comp s" using i(3) by (simp add: extends_def)
  have kb: "map (key_at h1) bs = map (key_at h) bs" using same by (simp add: key_at_def)
  have step: "copy_loop h s it = copy_loop h1 s1 (forward (h ! b) ! 0)"
    using it b i(1) same [of b] len
    by (subst copy_loop.simps) (simp add: iter_deref_def iter_incr_def node_at_def key_at_def)
  show ?case
    using step r(1,2) extends_trans [OF i(3) r(3)] r(4) i(4) cmp kb by auto
qed

lemma world_relI:
  assumes "length A = length os"
    and "\<And>k. k < length os \<Longrightarrow> obj_inv h (os ! k) (A ! k)"
    and "\<And>j k. j < length os \<Longrightarrow> k < length os \<Longrightarrow> j < k \<Longrightarrow>
           footprint (os ! j) (A ! j) \<inter> footprint (os ! k) (A ! k) = {}"
  shows "world_rel h os A"
  unfolding world_rel_def
proof (intro conjI allI impI)
  fix j k assume "j < length os" "k < length os" "j \<noteq> k"
  then show "footprint (os ! j) (A ! j) \<inter> footprint (os ! k) (A ! k) = {}"
    using assms(3) [of j k] assms(3) [of k j] by (cases "j < k") auto
qed (use assms in auto)

lemma world_rel_obj: "world_rel h os A \<Longrightarrow> k < length os \<Longrightarrow> obj_inv h (os ! k) (A ! k)"
  by (simp add: world_rel_def)

lemma world_rel_disj:
  "world_rel h os A \<Longrightarrow> j < length os \<Longrightarrow> k < length os \<Longrightarrow> j \<noteq> k \<Longrightarrow>
   footprint (os ! j) (A ! j) \<inter> footprint (os ! k) (A ! k) = {}"
  by (simp add: world_rel_def)

lemma world_rel_length: "world_rel h os A \<Longrightarrow> length A = length os"
  by (simp add: world_rel_def)

text \<open>One container changes, within its footprint and fresh addresses.\<close>

lemma world_rel_update:
  fixes h h' :: "'a heap"
  assumes w: "world_rel h os A" and j: "j < length os"
    and inv': "obj_inv h' s' as'"
    and len: "length h \<le> length h'"
    and frame: "\<And>a. a < length h \<Longrightarrow> a \<notin> footprint (os ! j) (A ! j) \<Longrightarrow> h' ! a = h ! a"
    and fp: "footprint s' as' \<subseteq> footprint (os ! j) (A ! j) \<union> {length h ..< length h'}"
  shows "world_rel h' (os[j := s']) (A[j := as'])"
proof (rule world_relI)
  show "length (A[j := as']) = length (os[j := s'])" using world_rel_length [OF w] by simp
next
  fix k assume k: "k < length (os[j := s'])"
  show "obj_inv h' (os[j := s'] ! k) (A[j := as'] ! k)"
  proof (cases "k = j")
    case True
    then show ?thesis using inv' j world_rel_length [OF w] by simp
  next
    case False
    have o: "obj_inv h (os ! k) (A ! k)" using world_rel_obj [OF w] k by simp
    have "obj_inv h' (os ! k) (A ! k)"
    proof (rule obj_inv_frame [OF o len])
      fix a assume a: "a \<in> footprint (os ! k) (A ! k)"
      then have "a \<notin> footprint (os ! j) (A ! j)"
        using world_rel_disj [OF w, of k j] k j False by auto
      with footprint_bound [OF o a] show "h' ! a = h ! a" by (rule frame)
    qed
    then show ?thesis using False by simp
  qed
next
  fix i k assume ik: "i < length (os[j := s'])" "k < length (os[j := s'])" "i < k"
  have other: "footprint (os ! m) (A ! m) \<inter> footprint s' as' = {}" if "m < length os" "m \<noteq> j" for m
  proof -
    have o: "obj_inv h (os ! m) (A ! m)" using world_rel_obj [OF w that(1)] .
    have "footprint (os ! m) (A ! m) \<inter> footprint (os ! j) (A ! j) = {}"
      using world_rel_disj [OF w that(1) j that(2)] .
    moreover have "\<And>a. a \<in> footprint (os ! m) (A ! m) \<Longrightarrow> a < length h"
      using footprint_bound [OF o] .
    ultimately show ?thesis using fp by fastforce
  qed
  show "footprint (os[j := s'] ! i) (A[j := as'] ! i) \<inter>
        footprint (os[j := s'] ! k) (A[j := as'] ! k) = {}"
  proof (cases "i = j")
    case True
    then show ?thesis using other [of k] ik j world_rel_length [OF w] by auto
  next
    case False
    show ?thesis
    proof (cases "k = j")
      case True
      then show ?thesis using other [of i] ik j False world_rel_length [OF w] by auto
    next
      case k: False
      then show ?thesis using world_rel_disj [OF w, of i k] ik False by simp
    qed
  qed
qed

text \<open>A container is added whose footprint is disjoint from the others.\<close>

lemma world_rel_append:
  assumes w: "world_rel h os A" and inv': "obj_inv h s' as'"
    and disj: "\<And>k. k < length os \<Longrightarrow> footprint (os ! k) (A ! k) \<inter> footprint s' as' = {}"
  shows "world_rel h (os @ [s']) (A @ [as'])"
proof (rule world_relI)
  show "length (A @ [as']) = length (os @ [s'])" using world_rel_length [OF w] by simp
next
  fix k assume "k < length (os @ [s'])"
  then show "obj_inv h ((os @ [s']) ! k) ((A @ [as']) ! k)"
    using world_rel_obj [OF w, of k] inv' world_rel_length [OF w]
    by (cases "k < length os") (auto simp: nth_append)
next
  fix j k assume "j < length (os @ [s'])" "k < length (os @ [s'])" "j < k"
  then show "footprint ((os @ [s']) ! j) ((A @ [as']) ! j) \<inter>
             footprint ((os @ [s']) ! k) ((A @ [as']) ! k) = {}"
    using world_rel_disj [OF w, of j k] disj [of j] world_rel_length [OF w]
    by (cases "k < length os") (auto simp: nth_append)
qed

text \<open>The heap grows and a container on fresh addresses is added.\<close>

lemma world_rel_append_fresh:
  fixes h h' :: "'a heap"
  assumes w: "world_rel h os A" and inv': "obj_inv h' s' as'"
    and len: "length h \<le> length h'"
    and frame: "\<And>a. a < length h \<Longrightarrow> h' ! a = h ! a"
    and fp: "footprint s' as' \<inter> {..<length h} = {}"
  shows "world_rel h' (os @ [s']) (A @ [as'])"
proof (rule world_rel_append [OF _ inv'])
  show "world_rel h' os A"
  proof (rule world_relI)
    show "length A = length os" by (rule world_rel_length [OF w])
    fix k assume k: "k < length os"
    have o: "obj_inv h (os ! k) (A ! k)" by (rule world_rel_obj [OF w k])
    show "obj_inv h' (os ! k) (A ! k)"
      by (rule obj_inv_frame [OF o len]) (use footprint_bound [OF o] frame in auto)
  next
    fix j k assume "j < length os" "k < length os" "j < k"
    then show "footprint (os ! j) (A ! j) \<inter> footprint (os ! k) (A ! k) = {}"
      using world_rel_disj [OF w, of j k] by simp
  qed
next
  fix k assume k: "k < length os"
  have "\<And>a. a \<in> footprint (os ! k) (A ! k) \<Longrightarrow> a < length h"
    using footprint_bound [OF world_rel_obj [OF w k]] .
  with fp show "footprint (os ! k) (A ! k) \<inter> footprint s' as' = {}" by fastforce
qed

lemma world_rel_swap:
  assumes w: "world_rel h os A" and j: "j < length os" and k: "k < length os"
  shows "world_rel h (os[j := os ! k, k := os ! j]) (A[j := A ! k, k := A ! j])"
proof -
  have l: "length A = length os" by (rule world_rel_length [OF w])
  define f where "f i = (if i = k then j else if i = j then k else i)" for i
  have os: "os[j := os ! k, k := os ! j] ! i = os ! f i" if "i < length os" for i
    using that j k by (auto simp: f_def nth_list_update)
  have A: "A[j := A ! k, k := A ! j] ! i = A ! f i" if "i < length os" for i
    using that j k l by (auto simp: f_def nth_list_update)
  have f: "f i < length os" if "i < length os" for i using that j k by (simp add: f_def)
  have inj: "f i \<noteq> f i'" if "i \<noteq> i'" for i i' using that by (auto simp: f_def)
  show ?thesis
  proof (rule world_relI)
    show "length (A[j := A ! k, k := A ! j]) = length (os[j := os ! k, k := os ! j])"
      using l by simp
  next
    fix i assume "i < length (os[j := os ! k, k := os ! j])"
    then show "obj_inv h (os[j := os ! k, k := os ! j] ! i) (A[j := A ! k, k := A ! j] ! i)"
      using os [of i] A [of i] world_rel_obj [OF w f [of i]] by simp
  next
    fix i i' assume "i < length (os[j := os ! k, k := os ! j])"
      "i' < length (os[j := os ! k, k := os ! j])" "i < i'"
    then show "footprint (os[j := os ! k, k := os ! j] ! i) (A[j := A ! k, k := A ! j] ! i) \<inter>
        footprint (os[j := os ! k, k := os ! j] ! i') (A[j := A ! k, k := A ! j] ! i') = {}"
      using os [of i] A [of i] os [of i'] A [of i']
        world_rel_disj [OF w f [of i] f [of i'] inj [of i i']] by simp
  qed
qed

lemma world_rel_butlast:
  assumes w: "world_rel h (os @ [s]) A"
  shows "world_rel h os (butlast A)"
proof -
  have l: "length A = length os + 1" using world_rel_length [OF w] by simp
  have nth: "butlast A ! k = A ! k" if "k < length os" for k
    using that l by (simp add: nth_butlast)
  show ?thesis
  proof (rule world_relI)
    show "length (butlast A) = length os" using l by simp
  next
    fix k assume k: "k < length os"
    then show "obj_inv h (os ! k) (butlast A ! k)"
      using world_rel_obj [OF w, of k] nth [OF k] by (simp add: nth_append)
  next
    fix j k assume "j < length os" "k < length os" "j < k"
    then show "footprint (os ! j) (butlast A ! j) \<inter> footprint (os ! k) (butlast A ! k) = {}"
      using world_rel_disj [OF w, of j k] nth [of j] nth [of k] by (simp add: nth_append)
  qed
qed

lemma obj_inv_live: "obj_inv h s as \<Longrightarrow> sl_head s \<noteq> None \<Longrightarrow> sl_inv h s as"
  by (auto simp: obj_inv_def moved_from_def)

lemma sl_inv_obj: "sl_inv h s as \<Longrightarrow> obj_inv h s as"
  by (simp add: obj_inv_def)

lemma moved_from_obj: "moved_from s \<Longrightarrow> obj_inv h s []"
  by (simp add: obj_inv_def)

lemma moved_from_footprint: "moved_from s \<Longrightarrow> footprint s [] = {}"
  by (simp add: footprint_def moved_from_def)

text \<open>A container built on a new head occupies fresh addresses only.\<close>

lemma fresh_object:
  fixes h :: "'a heap"
  assumes new: "skip_list_new h d cmp g = (h1, s0)"
    and ext: "extends h1 s0 [] h' s' as'"
  shows "length h \<le> length h'" "\<And>a. a < length h \<Longrightarrow> h' ! a = h ! a"
    "footprint s' as' \<inter> {..<length h} = {}"
proof -
  have h1: "h1 = h @ [SkipListNode_new d MAX_LEVEL]" and hd: "sl_head s0 = Some (length h)"
    using new by (auto simp: skip_list_new_def make_shared_def)
  have fp0: "footprint s0 [] = {length h}" using hd by (simp add: footprint_def)
  show "length h \<le> length h'" using ext h1 by (simp add: extends_def)
  show "h' ! a = h ! a" if "a < length h" for a
  proof -
    have "h' ! a = h1 ! a" using ext that h1 fp0 by (simp add: extends_def)
    then show ?thesis using that h1 by (simp add: nth_append)
  qed
  show "footprint s' as' \<inter> {..<length h} = {}"
    using ext fp0 h1 by (auto simp: extends_def)
qed

lemma copy_construct_inv:
  fixes h :: "'a heap"
  assumes other: "sl_inv h other bs"
    and res: "copy_construct h other d g = Some (Inr (h', s'))"
  shows "\<exists>as'. sl_inv h' s' as' \<and> length h \<le> length h' \<and> (\<forall>a<length h. h' ! a = h ! a) \<and>
           footprint s' as' \<inter> {..<length h} = {} \<and>
           map (key_at h') as' =
             foldl (\<lambda>ks v. ins_key (sl_comp other) v ks) [] (map (key_at h) bs)"
proof -
  obtain h1 s0 where new: "skip_list_new h d (sl_comp other) g = (h1, s0)"
    by (cases "skip_list_new h d (sl_comp other) g")
  from other obtain hp where hd: "sl_head other = Some hp" by (auto simp: sl_inv_def)
  have swo: "strict_weak_order (sl_comp other)" by (rule sl_inv_parts(6) [OF other hd])
  from skip_list_new_inv [OF swo new] have
    inv0: "sl_inv h1 s0 []" and h1: "h1 = h @ [SkipListNode_new d MAX_LEVEL]"
    and hd0: "sl_head s0 = Some (length h)" and cmp0: "sl_comp s0 = sl_comp other"
    by auto
  have old: "a < length h" if "a \<in> footprint other bs" for a
    using footprint_bound [OF sl_inv_obj [OF other] that] .
  have other1: "sl_inv h1 other bs"
    by (rule sl_inv_frame [OF other]) (use old h1 in \<open>auto simp: nth_append\<close>)
  have first: "begin_sl h1 other = Inr (first_of bs)" by (rule sl_inv_begin [OF other1])
  have seg: "lseg h1 0 (first_of bs) bs None"
    using sl_inv_chain0 [OF other1 hd] lseg_head [of h1 0 _ bs] by (fastforce simp: first_of_def)
  have disj: "set bs \<inter> footprint s0 [] = {}"
    using old hd hd0 by (fastforce simp: footprint_def)
  from copy_loop_inv [OF inv0 seg disj] obtain h2 s2 as2 where
    r: "copy_loop h1 s0 (first_of bs) = Some (Inr (h2, s2))" "sl_inv h2 s2 as2"
       "extends h1 s0 [] h2 s2 as2"
       "map (key_at h2) as2 =
          foldl (\<lambda>ks v. ins_key (sl_comp s0) v ks) (map (key_at h1) []) (map (key_at h1) bs)"
    by blast
  have eq: "h' = h2" "s' = s2"
    using res new first r(1) by (simp_all add: copy_construct_def)
  have kb: "map (key_at h1) bs = map (key_at h) bs"
    using old hd h1 by (auto simp: key_at_def nth_append footprint_def)
  show ?thesis
    using r(2) fresh_object [OF new r(3)] r(4) cmp0 kb unfolding eq by auto
qed

lemma copy_construct_live:
  "copy_construct h other d g = Some (Inr r) \<Longrightarrow> sl_head other \<noteq> None"
  by (cases "sl_head other")
     (auto simp: copy_construct_def begin_sl_def skip_list_new_def make_shared_def)

lemma insert_live:
  "insert_sl h s v = Some (Inr r) \<Longrightarrow> sl_head s \<noteq> None"
  by (cases "sl_head s") (auto simp: insert_sl_def insert_impl_def)

lemma move_construct_eq:
  "move_construct other = (other, other\<lparr>sl_head := None, sl_size := 0, sl_max_level := 0\<rparr>)"
  by (simp add: move_construct_def)

lemma list_swap_append:
  "j < length os \<Longrightarrow>
   (os @ [t])[j := (os @ [t]) ! length os, length os := (os @ [t]) ! j] = os[j := t] @ [os ! j]"
  by (simp add: list_update_append nth_append)

lemma positions_live:
  "positions h s = Some (Inr xs) \<Longrightarrow> sl_head s \<noteq> None"
  by (cases "sl_head s") (auto simp: positions_def begin_sl_def)

lemma order_kept_inv:
  fixes h :: "'a heap"
  assumes inv: "sl_inv h s as" and a: "a \<in> set as" and ok: "order_kept h s a n"
  shows "sl_inv (h[a := n]) s as"
proof -
  from inv obtain hp where hd: "sl_head s = Some hp" by (auto simp: sl_inv_def)
  note parts = sl_inv_parts [OF inv hd]
  define h' where "h' = h[a := n]"
  from ok have n: "n = (h ! a)\<lparr>node_value := node_value n\<rparr>" by (simp add: order_kept_def)
  have len: "length h' = length h" by (simp add: h'_def)
  have al: "a < length h" using footprint_bound [OF sl_inv_obj [OF inv], of a] a hd
    by (simp add: footprint_def)
  have fw: "forward (h' ! b) = forward (h ! b)" for b
  proof (cases "b = a")
    case True
    have "forward n = forward (h ! a)" by (subst n) simp
    with True al show ?thesis by (simp add: h'_def)
  next
    case False
    then show ?thesis by (simp add: h'_def)
  qed
  have lv: "level_at h' b = level_at h b" for b
  proof (cases "b = a")
    case True
    have "level n = level (h ! a)" by (subst n) simp
    with True al show ?thesis by (simp add: h'_def level_at_def)
  next
    case False
    then show ?thesis by (simp add: h'_def level_at_def)
  qed
  have at: "at_level h' i as = at_level h i as" for i
    by (simp add: at_level_def lv)
  have seg: "lseg h' i (forward (h' ! hp) ! i) (at_level h' i as) None" if "i < MAX_LEVEL" for i
  proof -
    have "lseg h i (forward (h ! hp) ! i) (at_level h i as) None"
      using inv hd that by (auto simp: sl_inv_def)
    then have "lseg h' i (forward (h ! hp) ! i) (at_level h i as) None"
    proof (rule lseg_frame)
      fix b assume "b \<in> set (at_level h i as)"
      then have "b \<in> set as" by (simp add: at_level_def)
      then have "b < length h" using footprint_bound [OF sl_inv_obj [OF inv], of b] hd
        by (simp add: footprint_def)
      then show "same_link h h' i b" by (simp add: same_link_def fw len)
    qed
    then show ?thesis by (simp add: fw at)
  qed
  have "lseg h' 0 (forward (h' ! hp) ! 0) as None"
    using seg [of 0] at_level_0 [of h' as] by (simp add: MAX_LEVEL_def)
  then have "collect h' (forward (h' ! hp) ! 0) None [] = Some (Inr ([] @ pos_list h' as))"
    by (rule collect_lseg) auto
  moreover have "begin_sl h' s = Inr (forward (h' ! hp) ! 0)"
    using hd parts(1,3) by (auto simp: begin_sl_def forward_at_def node_at_def len fw MAX_LEVEL_def)
  ultimately have "to_list h' s = Some (Inr (map (key_at h') as))"
    by (simp add: to_list_def positions_def end_sl_def pos_list_def comp_def)
  with ok have sorted: "sorted_wrt (sl_comp s) (map (key_at h') as)"
    by (simp add: order_kept_def h'_def)
  show ?thesis
    unfolding h'_def [symmetric] sl_inv_def
  proof (intro exI [of _ hp] conjI allI impI ballI)
    show "sl_head s = Some hp" by (rule hd)
    show "hp < length h'" using parts(1) len by simp
    show "hp \<notin> set as" by (rule parts(2))
    show "distinct as" using inv by (auto simp: sl_inv_def)
    show "MAX_LEVEL \<le> length (forward (h' ! hp))" using parts(3) by (simp add: fw)
    show "sl_max_level s < MAX_LEVEL" by (rule parts(4))
    show "sl_size s = length as" by (rule parts(5))
    show "strict_weak_order (sl_comp s)" by (rule parts(6))
    show "sorted_wrt (sl_comp s) (map (key_at h') as)" by (rule sorted)
    show "length (forward (h' ! b)) = level_at h' b + 1" if "b \<in> set as" for b
      using parts(8) [OF that] by (simp add: fw lv)
    show "level_at h' b \<le> sl_max_level s" if "b \<in> set as" for b
      using parts(8) [OF that] by (simp add: lv)
    show "lseg h' i (forward (h' ! hp) ! i) (at_level h' i as) None" if "i < MAX_LEVEL" for i
      by (rule seg [OF that])
  qed
qed

lemma reachable_world_rel: "reach order_kept w \<Longrightarrow> \<exists>A. world_rel (heap w) (objs w) A"
proof (induction rule: reach.induct)
  case start
  show ?case by (simp add: world_rel_def)
next
  case (construct w cmp dflt g h s)
  then obtain A where A: "world_rel (heap w) (objs w) A" by blast
  from skip_list_new_inv [OF construct.hyps(2,3)] have inv: "sl_inv h s []"
    and h: "h = heap w @ [SkipListNode_new dflt MAX_LEVEL]" and hd: "sl_head s = Some (length (heap w))"
    by auto
  have "world_rel h (objs w @ [s]) (A @ [[]])"
    by (rule world_rel_append_fresh [OF A sl_inv_obj [OF inv]])
       (use h hd in \<open>auto simp: nth_append footprint_def\<close>)
  then show ?case by auto
next
  case (construct_init w cmp init dflt g h s)
  then obtain A where A: "world_rel (heap w) (objs w) A" by blast
  obtain h1 s0 where new: "skip_list_new (heap w) dflt cmp g = (h1, s0)"
    by (cases "skip_list_new (heap w) dflt cmp g")
  from skip_list_new_inv [OF construct_init.hyps(2) new] have inv0: "sl_inv h1 s0 []" by blast
  from insert_all_inv [OF inv0, of init] construct_init.hyps(3) new obtain as' where
    r: "sl_inv h s as'" "extends h1 s0 [] h s as'"
    by (auto simp: skip_list_init_def)
  have "world_rel h (objs w @ [s]) (A @ [as'])"
    by (rule world_rel_append_fresh [OF A sl_inv_obj [OF r(1)] fresh_object [OF new r(2)]])
  then show ?case by auto
next
  case (construct_copy w k dflt g h s)
  then obtain A where A: "world_rel (heap w) (objs w) A" by blast
  have "sl_head (objs w ! k) \<noteq> None"
    by (rule copy_construct_live [OF construct_copy.hyps(3)])
  then have other: "sl_inv (heap w) (objs w ! k) (A ! k)"
    using obj_inv_live [OF world_rel_obj [OF A construct_copy.hyps(2)]] by simp
  from copy_construct_inv [OF other construct_copy.hyps(3)] obtain as' where
    r: "sl_inv h s as'" "length (heap w) \<le> length h" "\<forall>a<length (heap w). h ! a = heap w ! a"
       "footprint s as' \<inter> {..<length (heap w)} = {}"
    by blast
  have "world_rel h (objs w @ [s]) (A @ [as'])"
    by (rule world_rel_append_fresh [OF A sl_inv_obj [OF r(1)] r(2) _ r(4)]) (use r(3) in simp)
  then show ?case by auto
next
  case (construct_move w k s other)
  then obtain A where A: "world_rel (heap w) (objs w) A" by blast
  have s: "s = objs w ! k" and mf: "moved_from other"
    using construct_move.hyps(3) by (auto simp: move_construct_eq moved_from_def)
  have l: "length A = length (objs w)" by (rule world_rel_length [OF A])
  have 1: "world_rel (heap w) ((objs w)[k := other]) (A[k := []])"
    by (rule world_rel_update [OF A construct_move.hyps(2) moved_from_obj [OF mf]])
       (simp_all add: moved_from_footprint [OF mf])
  have "world_rel (heap w) ((objs w)[k := other] @ [s]) (A[k := []] @ [A ! k])"
  proof (rule world_rel_append [OF 1])
    show "obj_inv (heap w) s (A ! k)"
      unfolding s by (rule world_rel_obj [OF A construct_move.hyps(2)])
    fix m assume m: "m < length ((objs w)[k := other])"
    show "footprint ((objs w)[k := other] ! m) (A[k := []] ! m) \<inter> footprint s (A ! k) = {}"
    proof (cases "m = k")
      case True
      then show ?thesis using m l moved_from_footprint [OF mf] by simp
    next
      case False
      then show ?thesis
        using world_rel_disj [OF A, of m k] m construct_move.hyps(2) s by simp
    qed
  qed
  then show ?case by auto
next
  case (assign_copy w j k dflt g h s)
  then obtain A where A: "world_rel (heap w) (objs w) A" by blast
  from assign_copy.hyps(5) obtain temp where
    cc: "copy_construct (heap w) (objs w ! k) dflt g = Some (Inr (h, temp))" and s: "s = temp"
    by (cases "copy_construct (heap w) (objs w ! k) dflt g" rule: option.exhaust [case_names None Some])
       (auto simp: copy_assign_def swap_sl_def bind_r_def split: sum.splits)
  have "sl_head (objs w ! k) \<noteq> None"
    by (rule copy_construct_live [OF cc])
  then have other: "sl_inv (heap w) (objs w ! k) (A ! k)"
    using obj_inv_live [OF world_rel_obj [OF A assign_copy.hyps(3)]] by simp
  from copy_construct_inv [OF other cc] obtain as' where
    r: "sl_inv h temp as'" "length (heap w) \<le> length h" "\<forall>a<length (heap w). h ! a = heap w ! a"
       "footprint temp as' \<inter> {..<length (heap w)} = {}"
    by blast
  have 1: "world_rel h (objs w @ [temp]) (A @ [as'])"
    by (rule world_rel_append_fresh [OF A sl_inv_obj [OF r(1)] r(2) _ r(4)]) (use r(3) in simp)
  have "world_rel h ((objs w @ [temp])[j := (objs w @ [temp]) ! length (objs w),
      length (objs w) := (objs w @ [temp]) ! j])
      ((A @ [as'])[j := (A @ [as']) ! length (objs w), length (objs w) := (A @ [as']) ! j])"
    by (rule world_rel_swap [OF 1]) (use assign_copy.hyps(2) in simp_all)
  then have "world_rel h ((objs w)[j := temp] @ [objs w ! j])
      ((A @ [as'])[j := (A @ [as']) ! length (objs w), length (objs w) := (A @ [as']) ! j])"
    using list_swap_append [OF assign_copy.hyps(2), of temp] by simp
  from world_rel_butlast [OF this] show ?case using s by auto
next
  case (assign_move w j k h s other)
  then obtain A where A: "world_rel (heap w) (objs w) A" by blast
  have l: "length A = length (objs w)" by (rule world_rel_length [OF A])
  from assign_move.hyps(5) obtain h1 s1 where
    cl: "clear (heap w) (objs w ! j) = Inr (h1, s1)"
    by (cases "clear (heap w) (objs w ! j)") (auto simp: move_assign_def)
  then obtain hp where hd: "sl_head (objs w ! j) = Some hp"
    by (cases "sl_head (objs w ! j)") (auto simp: clear_def)
  then have inv: "sl_inv (heap w) (objs w ! j) (A ! j)"
    using obj_inv_live [OF world_rel_obj [OF A assign_move.hyps(2)]] by simp
  from clear_inv [OF inv hd] cl have
    c: "sl_inv h1 s1 []" "length h1 = length (heap w)" "\<forall>a<length (heap w). a \<noteq> hp \<longrightarrow> h1 ! a = heap w ! a"
       "sl_head s1 = Some hp"
    by auto
  have res: "h = h1" "s = objs w ! k" "moved_from other"
    using assign_move.hyps(5) cl by (auto simp: move_assign_def moved_from_def)
  have 1: "world_rel h1 ((objs w)[j := other]) (A[j := []])"
  proof (rule world_rel_update [OF A assign_move.hyps(2) moved_from_obj [OF res(3)]])
    show "length (heap w) \<le> length h1" using c(2) by simp
    show "footprint other [] \<subseteq> footprint (objs w ! j) (A ! j) \<union> {length (heap w)..<length h1}"
      by (simp add: moved_from_footprint [OF res(3)])
    fix a assume "a < length (heap w)" "a \<notin> footprint (objs w ! j) (A ! j)"
    then show "h1 ! a = heap w ! a" using c(3) hd by (auto simp: footprint_def)
  qed
  define os1 where "os1 = (objs w)[j := other]"
  define A1 where "A1 = A[j := []]"
  have "world_rel h1 (os1[j := os1 ! k, k := os1 ! j]) (A1[j := A1 ! k, k := A1 ! j])"
    by (rule world_rel_swap) (use 1 assign_move.hyps(2,3) in \<open>simp_all add: os1_def A1_def\<close>)
  moreover have "os1[j := os1 ! k, k := os1 ! j] = (objs w)[j := objs w ! k, k := other]"
    using assign_move.hyps(2,3,4) by (simp add: os1_def)
  moreover have "A1[j := A1 ! k, k := A1 ! j] = A[j := A ! k, k := []]"
    using assign_move.hyps(2,3,4) l by (simp add: A1_def)
  ultimately have "world_rel h1 ((objs w)[j := objs w ! k, k := other]) (A[j := A ! k, k := []])"
    by simp
  then show ?case using res by auto
next
  case (call_insert w j v h s r)
  then obtain A where A: "world_rel (heap w) (objs w) A" by blast
  have "sl_head (objs w ! j) \<noteq> None"
    by (rule insert_live [OF call_insert.hyps(3)])
  then have inv: "sl_inv (heap w) (objs w ! j) (A ! j)"
    using obj_inv_live [OF world_rel_obj [OF A call_insert.hyps(2)]] by simp
  from insert_inv [OF inv, of v] call_insert.hyps(3) obtain as' where
    r: "sl_inv h s as'" "length (heap w) \<le> length h"
       "\<forall>a<length (heap w). a \<notin> footprint (objs w ! j) (A ! j) \<longrightarrow> h ! a = heap w ! a"
       "footprint s as' \<subseteq> footprint (objs w ! j) (A ! j) \<union> {length (heap w) ..< length h}"
    by auto
  have "world_rel h ((objs w)[j := s]) (A[j := as'])"
    by (rule world_rel_update [OF A call_insert.hyps(2) sl_inv_obj [OF r(1)] r(2) _ r(4)])
       (use r(3) in simp)
  then show ?case by auto
next
  case (call_emplace w j v h s r)
  then obtain A where A: "world_rel (heap w) (objs w) A" by blast
  have ins: "insert_sl (heap w) (objs w ! j) v = Some (Inr (h, s, r))"
    using call_emplace.hyps(3) by (simp add: emplace_def)
  have "sl_head (objs w ! j) \<noteq> None"
    by (rule insert_live [OF ins])
  then have inv: "sl_inv (heap w) (objs w ! j) (A ! j)"
    using obj_inv_live [OF world_rel_obj [OF A call_emplace.hyps(2)]] by simp
  from insert_inv [OF inv, of v] ins obtain as' where
    r: "sl_inv h s as'" "length (heap w) \<le> length h"
       "\<forall>a<length (heap w). a \<notin> footprint (objs w ! j) (A ! j) \<longrightarrow> h ! a = heap w ! a"
       "footprint s as' \<subseteq> footprint (objs w ! j) (A ! j) \<union> {length (heap w) ..< length h}"
    by auto
  have "world_rel h ((objs w)[j := s]) (A[j := as'])"
    by (rule world_rel_update [OF A call_emplace.hyps(2) sl_inv_obj [OF r(1)] r(2) _ r(4)])
       (use r(3) in simp)
  then show ?case by auto
next
  case (call_clear w j h s)
  then obtain A where A: "world_rel (heap w) (objs w) A" by blast
  from call_clear.hyps(3) obtain hp where hd: "sl_head (objs w ! j) = Some hp"
    by (cases "sl_head (objs w ! j)") (auto simp: clear_def)
  then have inv: "sl_inv (heap w) (objs w ! j) (A ! j)"
    using obj_inv_live [OF world_rel_obj [OF A call_clear.hyps(2)]] by simp
  from clear_inv [OF inv hd] call_clear.hyps(3) have
    c: "sl_inv h s []" "length h = length (heap w)" "\<forall>a<length (heap w). a \<noteq> hp \<longrightarrow> h ! a = heap w ! a"
       "sl_head s = Some hp"
    by auto
  have "world_rel h ((objs w)[j := s]) (A[j := []])"
  proof (rule world_rel_update [OF A call_clear.hyps(2) sl_inv_obj [OF c(1)]])
    show "length (heap w) \<le> length h" using c(2) by simp
    show "footprint s [] \<subseteq> footprint (objs w ! j) (A ! j) \<union> {length (heap w)..<length h}"
      using c(4) hd by (simp add: footprint_def)
    fix a assume "a < length (heap w)" "a \<notin> footprint (objs w ! j) (A ! j)"
    then show "h ! a = heap w ! a" using c(3) hd by (auto simp: footprint_def)
  qed
  then show ?case by auto
next
  case (call_swap w j k s other)
  then obtain A where A: "world_rel (heap w) (objs w) A" by blast
  have "s = objs w ! k" "other = objs w ! j"
    using call_swap.hyps(5) by (simp_all add: swap_sl_def)
  with world_rel_swap [OF A call_swap.hyps(2,3)] show ?case by auto
next
  case (store w j xs a x n)
  then obtain A where A: "world_rel (heap w) (objs w) A" by blast
  have "sl_head (objs w ! j) \<noteq> None"
    by (rule positions_live [OF store.hyps(3)])
  then have inv: "sl_inv (heap w) (objs w ! j) (A ! j)"
    using obj_inv_live [OF world_rel_obj [OF A store.hyps(2)]] by simp
  have a: "a \<in> set (A ! j)"
    using store.hyps(3,4) sl_inv_positions [OF inv] by (auto simp: pos_list_def)
  from order_kept_inv [OF inv a store.hyps(5)]
  have inv': "sl_inv ((heap w)[a := n]) (objs w ! j) (A ! j)" .
  have "world_rel ((heap w)[a := n]) ((objs w)[j := objs w ! j]) (A[j := A ! j])"
  proof (rule world_rel_update [OF A store.hyps(2) sl_inv_obj [OF inv']])
    show "length (heap w) \<le> length ((heap w)[a := n])" by simp
    show "footprint (objs w ! j) (A ! j) \<subseteq>
          footprint (objs w ! j) (A ! j) \<union> {length (heap w)..<length ((heap w)[a := n])}"
      by simp
    fix b assume "b < length (heap w)" "b \<notin> footprint (objs w ! j) (A ! j)"
    then have "b \<noteq> a" using a by (auto simp: footprint_def)
    then show "(heap w)[a := n] ! b = heap w ! b" by simp
  qed
  then show ?case by auto
qed

lemma reachable_obj:
  assumes "reachable_ordered w" and "j < length (objs w)" and "sl_head (objs w ! j) \<noteq> None"
  shows "\<exists>as. sl_inv (heap w) (objs w ! j) as"
proof -
  from reachable_world_rel [OF assms(1) [unfolded reachable_ordered_def]]
  obtain A where "world_rel (heap w) (objs w) A" ..
  from obj_inv_live [OF world_rel_obj [OF this assms(2)] assms(3)] show ?thesis ..
qed

lemma sorted_wrt_related:
  "sorted_wrt R xs \<Longrightarrow> a \<in> set xs \<Longrightarrow> b \<in> set xs \<Longrightarrow> a \<noteq> b \<Longrightarrow> R a b \<or> R b a"
  by (induction xs) auto

lemma sl_inv_no_equiv:
  assumes inv: "sl_inv h s as" and "a \<in> set as" "b \<in> set as" "a \<noteq> b"
  shows "\<not> equiv_keys (sl_comp s) (key_at h a) (key_at h b)"
proof -
  from inv obtain hp where hd: "sl_head s = Some hp" by (auto simp: sl_inv_def)
  have "sorted_wrt (\<lambda>a b. sl_comp s (key_at h a) (key_at h b)) as"
    using sl_inv_parts(7) [OF inv hd] by (simp add: sorted_wrt_map)
  from sorted_wrt_related [OF this assms(2,3,4)] show ?thesis
    by (auto simp: equiv_keys_def)
qed

lemma sl_inv_level_chain:
  assumes inv: "sl_inv h s as" and hd: "sl_head s = Some hp" and i: "i < MAX_LEVEL"
  shows "lseg h i (forward (h ! hp) ! i) (at_level h i as) None \<and>
         subseq (at_level h i as) as \<and>
         sorted_wrt (sl_comp s) (map (key_at h) (at_level h i as))"
proof -
  have "sorted_wrt (\<lambda>a b. sl_comp s (key_at h a) (key_at h b)) as"
    using sl_inv_parts(7) [OF inv hd] by (simp add: sorted_wrt_map)
  then have "sorted_wrt (\<lambda>a b. sl_comp s (key_at h a) (key_at h b)) (at_level h i as)"
    unfolding at_level_def by (rule sorted_wrt_filter)
  then show ?thesis
    using inv hd i by (auto simp: sl_inv_def sorted_wrt_map at_level_def)
qed

text \<open>
  C2, as amended. In every state that the operations of the public interface reach when each
  store through a non-const iterator changes the value of an element only and leaves the
  iteration of its container strictly ascending, every container with a head has a chain of
  level 0 from the head that visits its nodes \<open>as\<close>, each once and not the head, in ascending
  order of the keys, no two of them equivalent, and \<^verbatim>\<open>size_\<close> of them; and for every level up
  to \<^verbatim>\<open>max_level_\<close> the chain of that level from the head visits the nodes of \<open>as\<close> whose
  own level reaches it: a subsequence of the chain of level 0, in ascending order. (A
  container without a head is the source of a move; it has no chain.)
\<close>

theorem reachable_invariant:
  assumes "reachable_ordered w" and "j < length (objs w)" and "sl_head (objs w ! j) = Some hp"
  shows "\<exists>as. lseg (heap w) 0 (forward (heap w ! hp) ! 0) as None \<and>
           distinct as \<and> hp \<notin> set as \<and>
           sl_size (objs w ! j) = length as \<and>
           sorted_wrt (sl_comp (objs w ! j)) (map (key_at (heap w)) as) \<and>
           (\<forall>a\<in>set as. \<forall>b\<in>set as. a \<noteq> b \<longrightarrow>
              \<not> equiv_keys (sl_comp (objs w ! j)) (key_at (heap w) a) (key_at (heap w) b)) \<and>
           (\<forall>i\<le>sl_max_level (objs w ! j).
              lseg (heap w) i (forward (heap w ! hp) ! i) (at_level (heap w) i as) None \<and>
              subseq (at_level (heap w) i as) as \<and>
              sorted_wrt (sl_comp (objs w ! j)) (map (key_at (heap w)) (at_level (heap w) i as)))"
proof -
  from reachable_obj [OF assms(1,2)] assms(3) obtain as where
    inv: "sl_inv (heap w) (objs w ! j) as" by auto
  note parts = sl_inv_parts [OF inv assms(3)]
  show ?thesis
  proof (intro exI [of _ as] conjI ballI allI impI)
    show "lseg (heap w) 0 (forward (heap w ! hp) ! 0) as None"
      by (rule sl_inv_chain0 [OF inv assms(3)])
    show "distinct as" using sl_inv_distinct [OF inv assms(3)] by simp
    show "hp \<notin> set as" by (rule parts(2))
    show "sl_size (objs w ! j) = length as" by (rule parts(5))
    show "sorted_wrt (sl_comp (objs w ! j)) (map (key_at (heap w)) as)" by (rule parts(7))
  next
    fix a b assume "a \<in> set as" "b \<in> set as" "a \<noteq> b"
    then show "\<not> equiv_keys (sl_comp (objs w ! j)) (key_at (heap w) a) (key_at (heap w) b)"
      by (rule sl_inv_no_equiv [OF inv])
  next
    fix i assume "i \<le> sl_max_level (objs w ! j)"
    then have i: "i < MAX_LEVEL" using parts(4) by simp
    from sl_inv_level_chain [OF inv assms(3) i]
    show "lseg (heap w) i (forward (heap w ! hp) ! i) (at_level (heap w) i as) None"
      "subseq (at_level (heap w) i as) as"
      "sorted_wrt (sl_comp (objs w ! j)) (map (key_at (heap w)) (at_level (heap w) i as))"
      by simp_all
  qed
qed

text \<open>
  C3, as amended. In a state that the operations reach when the stores through iterators
  keep the order, when the iteration over a container visits, at position \<open>p\<close>, a value
  equivalent to \<open>v\<close>, then \<^verbatim>\<open>insert(v)\<close> and \<^verbatim>\<open>emplace(v)\<close> return \<open>p\<close> with
  \<^verbatim>\<open>inserted = false\<close>, and the heap and every field of the container are as before: the size,
  the maximal level, every forward link and the generator.
\<close>

theorem insert_existing:
  assumes "reachable_ordered w" and "j < length (objs w)"
    and "positions (heap w) (objs w ! j) = Some (Inr xs)"
    and "(p, x) \<in> set xs" and "equiv_keys (sl_comp (objs w ! j)) x v"
  shows "insert_sl (heap w) (objs w ! j) v = Some (Inr (heap w, objs w ! j, p, False)) \<and>
         emplace (heap w) (objs w ! j) v = Some (Inr (heap w, objs w ! j, p, False))"
proof -
  from reachable_obj [OF assms(1,2) positions_live [OF assms(3)]] obtain as where
    inv: "sl_inv (heap w) (objs w ! j) as" ..
  have "xs = pos_list (heap w) as" using sl_inv_positions [OF inv] assms(3) by simp
  with assms(4) obtain a where a: "a \<in> set as" "p = Some a" "x = key_at (heap w) a"
    by (auto simp: pos_list_def)
  from insert_dup [OF inv a(1)] assms(5) a(2,3) show ?thesis
    by (simp add: insert_sl_def emplace_def)
qed

lemma dropWhile_dropWhile_imp:
  "(\<And>x. x \<in> set xs \<Longrightarrow> F x \<Longrightarrow> G x) \<Longrightarrow> dropWhile G (dropWhile F xs) = dropWhile G xs"
  by (induction xs) auto

lemma sl_inv_equal_range:
  assumes inv: "sl_inv h s as"
  shows "\<exists>r. collect h (first_pos (\<lambda>v. \<not> sl_comp s v key) (pos_list h as))
               (first_pos (\<lambda>v. sl_comp s key v) (pos_list h as)) [] = Some (Inr r) \<and>
             length r \<le> 1"
proof -
  from inv obtain hp where hd: "sl_head s = Some hp" by (auto simp: sl_inv_def)
  note parts = sl_inv_parts [OF inv hd]
  define D1 where "D1 = dropWhile (\<lambda>a. sl_comp s (key_at h a) key) as"
  define D2 where "D2 = dropWhile (\<lambda>a. \<not> sl_comp s key (key_at h a)) as"
  define mid where "mid = takeWhile (\<lambda>a. \<not> sl_comp s key (key_at h a)) D1"
  define pre where "pre = takeWhile (\<lambda>a. sl_comp s (key_at h a) key) as"
  have "dropWhile (\<lambda>a. \<not> sl_comp s key (key_at h a)) D1 = D2"
    unfolding D1_def D2_def
    by (rule dropWhile_dropWhile_imp) (use swo_asym [OF parts(6)] in blast)
  then have D1: "D1 = mid @ D2"
    using takeWhile_dropWhile_id [of "\<lambda>a. \<not> sl_comp s key (key_at h a)" D1]
    by (simp add: mid_def)
  have "as = pre @ D1"
    unfolding pre_def D1_def by simp
  then have as: "as = pre @ mid @ D2" using D1 by simp
  have lo: "first_pos (\<lambda>v. \<not> sl_comp s v key) (pos_list h as) = first_of (mid @ D2)"
    by (simp add: first_pos_dropWhile D1_def [symmetric] D1)
  have up: "first_pos (\<lambda>v. sl_comp s key v) (pos_list h as) = first_of D2"
    by (simp add: first_pos_dropWhile D2_def)
  have eqv: "equiv_keys (sl_comp s) (key_at h a) key" if "a \<in> set mid" for a
  proof -
    have "a \<in> set (post_of h (\<lambda>v. sl_comp s v key) as)"
      using that D1 by (simp add: post_of_def D1_def [symmetric])
    from post_not_go [OF parts(7) down_closed_lower [OF parts(6)] this]
    have "\<not> sl_comp s (key_at h a) key" .
    moreover have "\<not> sl_comp s key (key_at h a)"
      using that set_takeWhileD [of a "\<lambda>a. \<not> sl_comp s key (key_at h a)" D1]
      by (simp add: mid_def)
    ultimately show ?thesis by (simp add: equiv_keys_def)
  qed
  have short: "length mid \<le> 1"
  proof (rule ccontr)
    assume "\<not> length mid \<le> 1"
    then obtain a b rest where m: "mid = a # b # rest"
      by (cases mid; cases "tl mid") auto
    have "sorted_wrt (sl_comp s) (map (key_at h) (pre @ (a # b # rest) @ D2))"
      using parts(7) as m by simp
    then have "sl_comp s (key_at h a) (key_at h b)" by (simp add: sorted_wrt_append)
    moreover have "equiv_keys (sl_comp s) (key_at h a) (key_at h b)"
      using swo_equiv_trans [OF parts(6) eqv [of a] equiv_keys_sym [OF eqv [of b]]] m by simp
    ultimately show False by (simp add: equiv_keys_def)
  qed
  have "lseg h 0 (forward (h ! hp) ! 0) (pre @ mid @ D2) None"
    using sl_inv_chain0 [OF inv hd] as by simp
  then obtain m1 m2 where "lseg h 0 m1 mid m2" "lseg h 0 m2 D2 None"
    by (auto simp: lseg_append)
  then have seg: "lseg h 0 (first_of (mid @ D2)) mid (first_of D2)"
    using lseg_head [of h 0 m2 D2] lseg_head [of h 0 m1 "mid @ D2"]
    by (auto simp: first_of_def lseg_append)
  have "distinct (pre @ mid @ D2)" using sl_inv_distinct [OF inv hd] as by simp
  then have "first_of D2 \<notin> Some ` set mid"
    by (cases D2) (auto simp: first_of_def)
  from collect_lseg [OF seg this, of "[]"]
  have "collect h (first_of (mid @ D2)) (first_of D2) [] = Some (Inr (pos_list h mid))" by simp
  moreover have "length (pos_list h mid) \<le> 1" using short by (simp add: pos_list_def)
  ultimately show ?thesis unfolding lo up by blast
qed

text \<open>
  C4, as amended. In a state that the operations reach when the stores through iterators
  keep the order, for a container that holds its head, the iteration returns the positions
  \<open>xs\<close>; \<^verbatim>\<open>lower_bound(k)\<close> returns the first position whose value is not less than \<open>k\<close>,
  \<^verbatim>\<open>upper_bound(k)\<close> the first position whose value \<open>k\<close> is less than, each \<^verbatim>\<open>end()\<close> when
  there is none; \<^verbatim>\<open>equal_range(k)\<close> returns the pair of them, and the iteration from the
  first to the second visits at most one element. (The container that a move left without
  its head is the subject of C6 and C7.)
\<close>

theorem bounds_first_positions:
  assumes "reachable_ordered w" and "j < length (objs w)" and "sl_head (objs w ! j) \<noteq> None"
  shows "\<exists>xs lo up r.
     positions (heap w) (objs w ! j) = Some (Inr xs) \<and>
     lo = first_pos (\<lambda>v. \<not> sl_comp (objs w ! j) v k) xs \<and>
     up = first_pos (\<lambda>v. sl_comp (objs w ! j) k v) xs \<and>
     lower_bound (heap w) (objs w ! j) k = Some (Inr lo) \<and>
     upper_bound (heap w) (objs w ! j) k = Some (Inr up) \<and>
     equal_range (heap w) (objs w ! j) k = Some (Inr (lo, up)) \<and>
     collect (heap w) lo up [] = Some (Inr r) \<and> length r \<le> 1"
proof -
  from reachable_obj [OF assms] obtain as where inv: "sl_inv (heap w) (objs w ! j) as" ..
  from sl_inv_equal_range [OF inv, of k] obtain r where
    r: "collect (heap w) (first_pos (\<lambda>v. \<not> sl_comp (objs w ! j) v k) (pos_list (heap w) as))
               (first_pos (\<lambda>v. sl_comp (objs w ! j) k v) (pos_list (heap w) as)) [] = Some (Inr r)"
       "length r \<le> 1"
    by blast
  show ?thesis
    using sl_inv_positions [OF inv] sl_inv_lower_bound [OF inv, of k]
      sl_inv_upper_bound [OF inv, of k] r
    by (simp add: equal_range_def)
qed

section \<open>The sequence of a container and the comparisons\<close>

subsection \<open>Sorted sequences of keys\<close>

lemma mset_ins_key:
  "mset (ins_key cmp v ks) = (if \<exists>x\<in>set ks. equiv_keys cmp x v then mset ks else add_mset v (mset ks))"
proof -
  have "mset (takeWhile (\<lambda>x. cmp x v) ks @ v # dropWhile (\<lambda>x. cmp x v) ks) = add_mset v (mset ks)"
  proof -
    have "mset (takeWhile (\<lambda>x. cmp x v) ks) + mset (dropWhile (\<lambda>x. cmp x v) ks) = mset ks"
      by (metis mset_append takeWhile_dropWhile_id)
    then show ?thesis by simp
  qed
  then show ?thesis by (simp add: ins_key_def)
qed

lemma fold_ins_key_mset:
  "mset X = mset Y \<Longrightarrow>
   mset (foldl (\<lambda>ks v. ins_key cmp v ks) X vs) =
   mset (foldl (\<lambda>acc k. if \<exists>x\<in>set acc. equiv_keys cmp x k then acc else acc @ [k]) Y vs)"
proof (induction vs arbitrary: X Y)
  case Nil
  then show ?case by simp
next
  case (Cons v vs)
  have "set X = set Y" using Cons.prems by (rule mset_eq_setD)
  then have "mset (ins_key cmp v X) =
      mset (if \<exists>x\<in>set Y. equiv_keys cmp x v then Y else Y @ [v])"
    using Cons.prems by (simp add: mset_ins_key)
  from Cons.IH [OF this] show ?case by simp
qed

lemma ins_keys_distinct:
  "mset (foldl (\<lambda>ks v. ins_key cmp v ks) [] vs) = mset (distinct_keys cmp vs)"
  unfolding distinct_keys_def by (rule fold_ins_key_mset) simp

lemma distinct_keys_set:
  assumes "\<And>x. \<not> cmp x x" and "\<And>x y. equiv_keys cmp x y \<Longrightarrow> x = y"
  shows "set (foldl (\<lambda>acc k. if \<exists>x\<in>set acc. equiv_keys cmp x k then acc else acc @ [k]) Y vs) =
         set Y \<union> set vs"
proof (induction vs arbitrary: Y)
  case Nil
  show ?case by simp
next
  case (Cons v vs)
  have "(\<exists>x\<in>set Y. equiv_keys cmp x v) = (v \<in> set Y)"
    using assms by (auto simp: equiv_keys_def)
  then show ?case using Cons.IH by auto
qed

lemma sorted_wrt_unique:
  assumes irr: "\<And>x. \<not> R x x" and tr: "\<And>x y z. R x y \<Longrightarrow> R y z \<Longrightarrow> R x z"
  shows "sorted_wrt R xs \<Longrightarrow> sorted_wrt R ys \<Longrightarrow> set xs = set ys \<Longrightarrow> xs = ys"
proof (induction xs arbitrary: ys)
  case Nil
  then show ?case by simp
next
  case (Cons x xs)
  then obtain y ys' where ys: "ys = y # ys'" by (cases ys) auto
  have "x = y"
  proof (rule ccontr)
    assume ne: "x \<noteq> y"
    then have "x \<in> set ys'" "y \<in> set xs" using Cons.prems(3) ys by auto
    then have "R y x" "R x y" using Cons.prems(1,2) ys by auto
    then show False using irr tr by blast
  qed
  moreover have "x \<notin> set xs" "y \<notin> set ys'" using Cons.prems(1,2) ys irr by auto
  ultimately have "set xs = set ys'" using Cons.prems(3) ys by auto
  with Cons.IH [of ys'] Cons.prems(1,2) ys \<open>x = y\<close> show ?case by simp
qed

subsection \<open>The initializer-list constructor\<close>

lemma sl_inv_to_list:
  "sl_inv h s as \<Longrightarrow> to_list h s = Some (Inr (map (key_at h) as))"
  using sl_inv_positions [of h s as] by (simp add: to_list_def pos_list_def comp_def)

lemma skip_list_init_inv:
  fixes h :: "'a heap"
  assumes swo: "strict_weak_order cmp"
  shows "\<exists>h' s' as'. skip_list_init h ks d cmp g = Some (Inr (h', s')) \<and> sl_inv h' s' as' \<and>
     sl_comp s' = cmp \<and> length h \<le> length h' \<and> (\<forall>a<length h. h' ! a = h ! a) \<and>
     footprint s' as' \<inter> {..<length h} = {} \<and>
     map (key_at h') as' = foldl (\<lambda>ks v. ins_key cmp v ks) [] ks"
proof -
  obtain h1 s0 where new: "skip_list_new h d cmp g = (h1, s0)"
    by (cases "skip_list_new h d cmp g")
  from skip_list_new_inv [OF swo new] have inv0: "sl_inv h1 s0 []" and cmp0: "sl_comp s0 = cmp"
    by auto
  from insert_all_inv [OF inv0, of ks] obtain h' s' as' where
    r: "insert_all h1 s0 ks = Some (Inr (h', s'))" "sl_inv h' s' as'" "extends h1 s0 [] h' s' as'"
       "map (key_at h') as' = foldl (\<lambda>ks v. ins_key (sl_comp s0) v ks) (map (key_at h1) []) ks"
    by blast
  have "skip_list_init h ks d cmp g = Some (Inr (h', s'))"
    using new r(1) by (simp add: skip_list_init_def)
  moreover have "sl_comp s' = cmp" using r(3) cmp0 by (simp add: extends_def)
  ultimately show ?thesis
    using r(2,4) fresh_object [OF new r(3)] cmp0 by auto
qed

subsection \<open>Sequences of calls\<close>






subsection \<open>The comparisons\<close>

lemma std_equal_lseg:
  "lseg h 0 p1 as1 None \<Longrightarrow> lseg h 0 p2 as2 None \<Longrightarrow> length as1 = length as2 \<Longrightarrow>
   std_equal h p1 None p2 = Some (Inr (map (key_at h) as1 = map (key_at h) as2))"
proof (induction as1 arbitrary: as2 p1 p2)
  case Nil
  then show ?case by (subst std_equal.simps) (simp add: iter_eq_def)
next
  case (Cons a as1)
  then obtain b bs where as2: "as2 = b # bs" by (cases as2) auto
  from Cons.prems as2 have
    IH: "std_equal h (forward (h ! a) ! 0) None (forward (h ! b) ! 0) =
         Some (Inr (map (key_at h) as1 = map (key_at h) bs))"
    by (intro Cons.IH) auto
  from Cons.prems as2 IH show ?case
    by (subst std_equal.simps)
       (auto simp: iter_eq_def iter_deref_def iter_incr_def node_at_def key_at_def)
qed

lemma sl_inv_first_seg:
  assumes "sl_inv h s as"
  shows "begin_sl h s = Inr (first_of as) \<and> lseg h 0 (first_of as) as None"
proof -
  from assms obtain hp where hp: "sl_head s = Some hp" by (auto simp: sl_inv_def)
  have "lseg h 0 (first_of as) as None"
    using sl_inv_chain0 [OF assms hp] lseg_head [of h 0 _ as] by (fastforce simp: first_of_def)
  with sl_inv_begin [OF assms] show ?thesis by simp
qed

lemma sl_inv_op_eq:
  assumes a: "sl_inv h lhs as1" and b: "sl_inv h rhs as2"
  shows "op_eq h lhs rhs = Some (Inr (map (key_at h) as1 = map (key_at h) as2))"
proof -
  from a b obtain hp1 hp2 where hd: "sl_head lhs = Some hp1" "sl_head rhs = Some hp2"
    by (auto simp: sl_inv_def)
  have sz: "sl_size lhs = length as1" "sl_size rhs = length as2"
    using sl_inv_parts(5) [OF a hd(1)] sl_inv_parts(5) [OF b hd(2)] by simp_all
  show ?thesis
  proof (cases "length as1 = length as2")
    case False
    then have "map (key_at h) as1 \<noteq> map (key_at h) as2" by (metis length_map)
    with False sz show ?thesis by (simp add: op_eq_def size_sl_def)
  next
    case True
    with sz sl_inv_first_seg [OF a] sl_inv_first_seg [OF b]
      std_equal_lseg [of h "first_of as1" as1 "first_of as2" as2]
    show ?thesis by (simp add: op_eq_def size_sl_def end_sl_def)
  qed
qed

lemma eq_after_inserts_total:
  fixes h :: "'a heap"
  assumes swo: "strict_weak_order cmp" and tot: "\<And>x y. equiv_keys cmp x y \<Longrightarrow> x = y"
    and ms: "mset ks1 = mset ks2"
  shows "eq_after_inserts h d cmp g1 g2 ks1 ks2 = Some (Inr True)"
proof -
  from skip_list_init_inv [OF swo, of h ks1 d g1] obtain h1 lhs as1 where
    l: "skip_list_init h ks1 d cmp g1 = Some (Inr (h1, lhs))" "sl_inv h1 lhs as1"
       "map (key_at h1) as1 = foldl (\<lambda>ks v. ins_key cmp v ks) [] ks1" "sl_comp lhs = cmp"
    by blast
  from skip_list_init_inv [OF swo, of h1 ks2 d g2] obtain h2 rhs as2 where
    r: "skip_list_init h1 ks2 d cmp g2 = Some (Inr (h2, rhs))" "sl_inv h2 rhs as2"
       "length h1 \<le> length h2" "\<forall>a<length h1. h2 ! a = h1 ! a"
       "map (key_at h2) as2 = foldl (\<lambda>ks v. ins_key cmp v ks) [] ks2" "sl_comp rhs = cmp"
    by blast
  have old: "a < length h1" if "a \<in> footprint lhs as1" for a
    using footprint_bound [OF sl_inv_obj [OF l(2)] that] .
  have l2: "sl_inv h2 lhs as1"
    by (rule sl_inv_frame [OF l(2) r(3)]) (use old r(4) in auto)
  from l(2) obtain hp where hd: "sl_head lhs = Some hp" by (auto simp: sl_inv_def)
  have "a < length h1" if "a \<in> set as1" for a
    using old [of a] that hd by (simp add: footprint_def)
  then have k1: "map (key_at h2) as1 = map (key_at h1) as1"
    using r(4) by (simp add: key_at_def)
  from r(2) obtain hp2 where hd2: "sl_head rhs = Some hp2" by (auto simp: sl_inv_def)
  have s1: "sorted_wrt cmp (map (key_at h2) as1)"
    using sl_inv_parts(7) [OF l2 hd] l(4) by simp
  have s2: "sorted_wrt cmp (map (key_at h2) as2)"
    using sl_inv_parts(7) [OF r(2) hd2] r(6) by simp
  have irr: "\<And>x. \<not> cmp x x" using swo_irrefl [OF swo] .
  have set_eq: "set (foldl (\<lambda>ks v. ins_key cmp v ks) [] ks) = set ks" for ks
  proof -
    have "set (foldl (\<lambda>ks v. ins_key cmp v ks) [] ks) = set (distinct_keys cmp ks)"
      using ins_keys_distinct [of cmp ks] by (rule mset_eq_setD)
    also have "\<dots> = set ks"
      unfolding distinct_keys_def using distinct_keys_set [where cmp = cmp and Y = "[]" and vs = ks, OF irr tot] by simp
    finally show ?thesis .
  qed
  have "set (map (key_at h2) as1) = set (map (key_at h2) as2)"
    unfolding k1 l(3) r(5) set_eq using ms by (metis mset_eq_setD)
  with s1 s2 have "map (key_at h2) as1 = map (key_at h2) as2"
    by (intro sorted_wrt_unique [of cmp]) (use irr swo_trans [OF swo] in blast)+
  with sl_inv_op_eq [OF l2 r(2)] l(1) r(1) show ?thesis
    by (simp add: eq_after_inserts_def)
qed

subsection \<open>The comparisons in any state\<close>

lemma collect_walk:
  assumes "collect h first lst out = Some r"
  shows "lst = None \<longrightarrow> (\<forall>res. r = Inr res \<longrightarrow>
     (\<exists>xs. res = out @ xs \<and> walk h first (map snd xs)))"
  using assms
proof (induct h first lst out r rule: collect.raw_induct [rotated 1, consumes 1])
  case (1 collect' h first lst out r)
  show ?case
  proof (intro impI allI)
    fix res assume l: "lst = None" and r: "r = Inr res"
    show "\<exists>xs. res = out @ xs \<and> walk h first (map snd xs)"
    proof (cases "first = None")
      case True
      with 1(2) l r show ?thesis by (simp add: iter_eq_def)
    next
      case False
      with 1(2) l r obtain v nxt where
        d: "iter_deref h first = Inr v" and i: "iter_incr h first = Inr nxt"
        and c: "collect' h nxt lst (out @ [(first, v)]) = Some (Inr res)"
        by (auto simp: iter_eq_def split: sum.splits)
      from 1(1) [OF c] l obtain ys where
        ys: "res = (out @ [(first, v)]) @ ys" "walk h nxt (map snd ys)"
        by auto
      show ?thesis
      proof (intro exI conjI)
        show "res = out @ ((first, v) # ys)" using ys(1) by simp
        show "walk h first (map snd ((first, v) # ys))" using False d i ys(2) by auto
      qed
    qed
  qed
qed

lemma to_list_walk:
  assumes "to_list h s = Some (Inr vs)"
  shows "\<exists>p. begin_sl h s = Inr p \<and> walk h p vs"
proof -
  from assms obtain p xs where
    b: "begin_sl h s = Inr p" and c: "collect h p None [] = Some (Inr xs)" and v: "vs = map snd xs"
    by (cases "begin_sl h s"; cases "positions h s" rule: option.exhaust [case_names None Some])
       (auto simp: to_list_def positions_def end_sl_def bind_r_def split: sum.splits option.splits)
  from collect_walk [OF c] v have "walk h p vs" by auto
  with b show ?thesis by blast
qed

lemma lexicographical_compare_walk:
  "walk h p xs \<Longrightarrow> walk h q ys \<Longrightarrow>
   lexicographical_compare lt h p None q None = Some (Inr (lex_less lt xs ys))"
proof (induction xs arbitrary: ys p q)
  case Nil
  then show ?case
    by (cases ys) (auto simp: lexicographical_compare.simps iter_eq_def)
next
  case (Cons x xs)
  show ?case
  proof (cases ys)
    case Nil
    with Cons.prems show ?thesis
      by (subst lexicographical_compare.simps) (auto simp: iter_eq_def)
  next
    case (Cons y ys')
    from Cons.prems(1) obtain p' where
      p: "p \<noteq> None" "iter_deref h p = Inr x" "iter_incr h p = Inr p'" "walk h p' xs"
      by auto
    from Cons.prems(2) Cons obtain q' where
      q: "q \<noteq> None" "iter_deref h q = Inr y" "iter_incr h q = Inr q'" "walk h q' ys'"
      by auto
    have IH: "lexicographical_compare lt h p' None q' None = Some (Inr (lex_less lt xs ys'))"
      by (rule Cons.IH [OF p(4) q(4)])
    from p q IH Cons show ?thesis
      by (subst lexicographical_compare.simps) (auto simp: iter_eq_def)
  qed
qed

lemma std_equal_walk:
  "walk h p xs \<Longrightarrow> walk h q ys \<Longrightarrow> length xs = length ys \<Longrightarrow>
   std_equal h p None q = Some (Inr (xs = ys))"
proof (induction xs arbitrary: ys p q)
  case Nil
  then show ?case by (subst std_equal.simps) (simp add: iter_eq_def)
next
  case (Cons x xs)
  then obtain y ys' where ys: "ys = y # ys'" by (cases ys) auto
  from Cons.prems(1) obtain p' where
    p: "p \<noteq> None" "iter_deref h p = Inr x" "iter_incr h p = Inr p'" "walk h p' xs"
    by auto
  from Cons.prems(2) ys obtain q' where
    q: "q \<noteq> None" "iter_deref h q = Inr y" "iter_incr h q = Inr q'" "walk h q' ys'"
    by auto
  have IH: "std_equal h p' None q' = Some (Inr (xs = ys'))"
    by (rule Cons.IH [OF p(4) q(4)]) (use Cons.prems(3) ys in simp)
  from p q IH ys show ?case
    by (subst std_equal.simps) (auto simp: iter_eq_def)
qed

lemma op_less_walk:
  assumes "to_list h lhs = Some (Inr xs)" and "to_list h rhs = Some (Inr ys)"
  shows "op_less lt h lhs rhs = Some (Inr (lex_less lt xs ys))"
proof -
  from to_list_walk [OF assms(1)] obtain p where p: "begin_sl h lhs = Inr p" "walk h p xs" by blast
  from to_list_walk [OF assms(2)] obtain q where q: "begin_sl h rhs = Inr q" "walk h q ys" by blast
  from p q lexicographical_compare_walk [OF p(2) q(2), of lt] show ?thesis
    by (simp add: op_less_def end_sl_def)
qed

lemma op_eq_walk:
  assumes "to_list h lhs = Some (Inr xs)" and "to_list h rhs = Some (Inr ys)"
    and "size_sl lhs = length xs" and "size_sl rhs = length ys"
  shows "op_eq h lhs rhs = Some (Inr (xs = ys))"
proof -
  from to_list_walk [OF assms(1)] obtain p where p: "begin_sl h lhs = Inr p" "walk h p xs" by blast
  from to_list_walk [OF assms(2)] obtain q where q: "begin_sl h rhs = Inr q" "walk h q ys" by blast
  show ?thesis
  proof (cases "length xs = length ys")
    case False
    then have "xs \<noteq> ys" by auto
    with False assms(3,4) show ?thesis by (simp add: op_eq_def)
  next
    case True
    with assms(3,4) p q std_equal_walk [OF p(2) q(2) True] show ?thesis
      by (simp add: op_eq_def end_sl_def)
  qed
qed

lemma reachable_to_list:
  assumes "reachable_ordered w" and "j < length (objs w)" and "sl_head (objs w ! j) \<noteq> None"
  shows "\<exists>vs. to_list (heap w) (objs w ! j) = Some (Inr vs) \<and> size_sl (objs w ! j) = length vs"
proof -
  from reachable_obj [OF assms] obtain as where inv: "sl_inv (heap w) (objs w ! j) as" ..
  from inv obtain hp where hd: "sl_head (objs w ! j) = Some hp" by (auto simp: sl_inv_def)
  from sl_inv_to_list [OF inv] sl_inv_parts(5) [OF inv hd] show ?thesis
    by (simp add: size_sl_def)
qed

text \<open>
  C8, as amended. When the comparator is a strict weak ordering under which only equal keys
  are equivalent, two containers built from two sequences with the same multiset of keys
  compare equal under \<^verbatim>\<open>operator==\<close>. For any two containers on any heap whose iterations
  from \<^verbatim>\<open>begin()\<close> to \<^verbatim>\<open>end()\<close> return the sequences \<open>xs\<close> and \<open>ys\<close>, \<^verbatim>\<open><\<close>, \<^verbatim>\<open><=\<close>, \<^verbatim>\<open>>\<close> and
  \<^verbatim>\<open>>=\<close> are the lexicographic comparison of \<open>xs\<close> and \<open>ys\<close> under the order \<open>lt\<close> of the
  elements, and, when \<^verbatim>\<open>size()\<close> of each is the length of its sequence, \<^verbatim>\<open>==\<close> and \<^verbatim>\<open>!=\<close>
  decide whether \<open>xs\<close> and \<open>ys\<close> are equal. A container that holds its head has such a
  sequence, of \<^verbatim>\<open>size()\<close> elements, in every state that the operations reach when the stores
  through iterators keep the order.
\<close>

theorem equality_and_ordering:
  "(strict_weak_order cmp \<and> (\<forall>x y. equiv_keys cmp x y \<longrightarrow> x = y) \<and> mset ks1 = mset ks2 \<longrightarrow>
      eq_after_inserts h0 d cmp g1 g2 ks1 ks2 = Some (Inr True)) \<and>
   (to_list h lhs = Some (Inr xs) \<and> to_list h rhs = Some (Inr ys) \<longrightarrow>
      op_less lt h lhs rhs = Some (Inr (lex_less lt xs ys)) \<and>
      op_less_eq lt h lhs rhs = Some (Inr (\<not> lex_less lt ys xs)) \<and>
      op_greater lt h lhs rhs = Some (Inr (lex_less lt ys xs)) \<and>
      op_greater_eq lt h lhs rhs = Some (Inr (\<not> lex_less lt xs ys))) \<and>
   (to_list h lhs = Some (Inr xs) \<and> to_list h rhs = Some (Inr ys) \<and>
    size_sl lhs = length xs \<and> size_sl rhs = length ys \<longrightarrow>
      op_eq h lhs rhs = Some (Inr (xs = ys)) \<and>
      op_neq h lhs rhs = Some (Inr (xs \<noteq> ys))) \<and>
   (reachable_ordered w \<and> j < length (objs w) \<and> sl_head (objs w ! j) \<noteq> None \<longrightarrow>
      (\<exists>vs. to_list (heap w) (objs w ! j) = Some (Inr vs) \<and>
            size_sl (objs w ! j) = length vs))"
proof (intro conjI impI)
  assume "strict_weak_order cmp \<and> (\<forall>x y. equiv_keys cmp x y \<longrightarrow> x = y) \<and> mset ks1 = mset ks2"
  then show "eq_after_inserts h0 d cmp g1 g2 ks1 ks2 = Some (Inr True)"
    using eq_after_inserts_total [where cmp = cmp and ?ks1.0 = ks1 and ?ks2.0 = ks2] by blast
next
  assume a: "to_list h lhs = Some (Inr xs) \<and> to_list h rhs = Some (Inr ys)"
  then have l: "op_less lt h lhs rhs = Some (Inr (lex_less lt xs ys))"
    and r: "op_less lt h rhs lhs = Some (Inr (lex_less lt ys xs))"
    using op_less_walk [of h lhs xs rhs ys lt] op_less_walk [of h rhs ys lhs xs lt] by simp_all
  show "op_less lt h lhs rhs = Some (Inr (lex_less lt xs ys))" by (rule l)
  show "op_less_eq lt h lhs rhs = Some (Inr (\<not> lex_less lt ys xs))"
    using r by (simp add: op_less_eq_def)
  show "op_greater lt h lhs rhs = Some (Inr (lex_less lt ys xs))"
    using r by (simp add: op_greater_def)
  show "op_greater_eq lt h lhs rhs = Some (Inr (\<not> lex_less lt xs ys))"
    using l by (simp add: op_greater_eq_def)
next
  assume a: "to_list h lhs = Some (Inr xs) \<and> to_list h rhs = Some (Inr ys) \<and>
    size_sl lhs = length xs \<and> size_sl rhs = length ys"
  then have e: "op_eq h lhs rhs = Some (Inr (xs = ys))"
    using op_eq_walk [of h lhs xs rhs ys] by simp
  show "op_eq h lhs rhs = Some (Inr (xs = ys))" by (rule e)
  show "op_neq h lhs rhs = Some (Inr (xs \<noteq> ys))" using e by (simp add: op_neq_def)
next
  assume "reachable_ordered w \<and> j < length (objs w) \<and> sl_head (objs w ! j) \<noteq> None"
  then show "\<exists>vs. to_list (heap w) (objs w ! j) = Some (Inr vs) \<and>
            size_sl (objs w ! j) = length vs"
    using reachable_to_list [of w j] by simp
qed

lemma TestStruct_less_swo: "strict_weak_order TestStruct_less"
  by (auto simp: strict_weak_order_def equiv_keys_def TestStruct_less_def)

text \<open>
  C8 as it is written asks for no relation between the comparator and the equality of the
  elements. For \<^verbatim>\<open>TestStruct\<close> the keys \<open>(1, one)\<close> and \<open>(1, uno)\<close> are equivalent, each
  container keeps the one inserted first, and the two containers built from the same multiset
  in the two orders compare unequal.
\<close>

theorem equality_counterexample:
  "strict_weak_order TestStruct_less \<and>
   mset [\<lparr>ts_value = 1, ts_name = ''one''\<rparr>, \<lparr>ts_value = 1, ts_name = ''uno''\<rparr>] =
   mset [\<lparr>ts_value = 1, ts_name = ''uno''\<rparr>, \<lparr>ts_value = 1, ts_name = ''one''\<rparr>] \<and>
   eq_after_inserts [] \<lparr>ts_value = 0, ts_name = ''''\<rparr> TestStruct_less (sconst (1 / 2)) (sconst (1 / 2))
     [\<lparr>ts_value = 1, ts_name = ''one''\<rparr>, \<lparr>ts_value = 1, ts_name = ''uno''\<rparr>]
     [\<lparr>ts_value = 1, ts_name = ''uno''\<rparr>, \<lparr>ts_value = 1, ts_name = ''one''\<rparr>] = Some (Inr False)"
proof -
  have "eq_after_inserts [] \<lparr>ts_value = 0, ts_name = ''''\<rparr> TestStruct_less (sconst (1 / 2)) (sconst (1 / 2))
     [\<lparr>ts_value = 1, ts_name = ''one''\<rparr>, \<lparr>ts_value = 1, ts_name = ''uno''\<rparr>]
     [\<lparr>ts_value = 1, ts_name = ''uno''\<rparr>, \<lparr>ts_value = 1, ts_name = ''one''\<rparr>] = Some (Inr False)"
    by (simp add: eq_after_inserts_def skip_list_init_def op_eq_def std_equal.simps eval_defs
        TestStruct_less_def)
  with TestStruct_less_swo show ?thesis by (simp add: add_mset_commute)
qed

section \<open>The theorems at the example states\<close>

lemma int_less_swo: "strict_weak_order ((<) :: int \<Rightarrow> int \<Rightarrow> bool)"
  by (auto simp: strict_weak_order_def equiv_keys_def)

lemma ex2_init:
  "skip_list_init [] [1, 3, 5, 7, 9] 0 (<) (cycle [1 / 10, 9 / 10, 9 / 10]) =
   Some (Inr (ex_heap2, ex_list2))"
  by (simp add: skip_list_init_def eval_defs ex_heap2_def ex_list2_def)

lemma ex2_reach: "reach allowed ex_world2"
  using reach.construct_init [OF reach.start int_less_swo, where allowed = allowed and
      init = "[1, 3, 5, 7, 9]" and dflt = 0 and g = "cycle [1 / 10, 9 / 10, 9 / 10]" and
      h = ex_heap2 and s = ex_list2] ex2_init
  by (simp add: ex_world2_def)

lemma ex2_reachable: "reachable_ordered ex_world2"
  unfolding reachable_ordered_def by (rule ex2_reach)

lemma ex3_init_a:
  "skip_list_init [] [1, 2, 3] 0 (<) (sconst (1 / 2)) = Some (Inr (ex_heap3a, ex_list3a))"
  by (simp add: skip_list_init_def eval_defs ex_heap3a_def ex_list3a_def)

lemma ex3_init_b:
  "skip_list_init ex_heap3a [1, 2, 4] 0 (<) (sconst (1 / 2)) = Some (Inr (ex_heap3, ex_list3b))"
  by (simp add: skip_list_init_def eval_defs ex_heap3_def ex_heap3a_def ex_list3b_def
      eval_nat_numeral)

lemma ex3_reachable: "reachable_ordered ex_world3"
proof -
  have "reach order_kept \<lparr>heap = ex_heap3a, objs = [ex_list3a]\<rparr>"
    using reach.construct_init [OF reach.start int_less_swo, where allowed = order_kept and
        init = "[1, 2, 3]" and dflt = 0 and g = "sconst (1 / 2)" and
        h = ex_heap3a and s = ex_list3a] ex3_init_a
    by simp
  from reach.construct_init [OF this int_less_swo, where init = "[1, 2, 4]" and dflt = 0 and
        g = "sconst (1 / 2)" and h = ex_heap3 and s = ex_list3b] ex3_init_b
  show ?thesis by (simp add: ex_world3_def reachable_ordered_def)
qed

lemma ex2_positions:
  "positions ex_heap2 ex_list2 =
   Some (Inr [(Some 1, 1), (Some 2, 3), (Some 3, 5), (Some 4, 7), (Some 5, 9)])"
  by (simp add: eval_defs ex_heap2_def ex_list2_def)

lemma ex2_find: "find_sl ex_heap2 ex_list2 5 = Some (Inr (Some 3))"
  by (simp add: find_sl_def find_impl_def eval_defs ex_heap2_def ex_list2_def)

lemma ex2k_reachable: "reachable_ordered ex_world2k"
proof -
  have "order_kept (heap ex_world2) (objs ex_world2 ! 0) 3
          \<lparr>node_value = 6, forward = [Some 4, Some 5], level = 1\<rparr>"
    by (simp add: order_kept_def to_list_def eval_defs ex_world2_def ex_heap2_def ex_list2_def)
  from reach.store [OF ex2_reach, where allowed = order_kept and j = 0 and a = 3 and x = 5,
      OF _ _ _ this] ex2_positions
  show ?thesis
    by (simp add: reachable_ordered_def ex_world2_def ex_world2k_def ex_heap2k_def)
qed

lemma ex2s_reachable: "reachable ex_world2s"
  using reach.store [OF ex2_reach, where allowed = "\<lambda>h s a n. True" and j = 0 and a = 3 and x = 5
      and n = "\<lparr>node_value = 0, forward = [Some 4, Some 5], level = 1\<rparr>"] ex2_positions
  by (simp add: reachable_def ex_world2_def ex_world2s_def ex_heap2s_def)

lemma ex2s_positions:
  "positions ex_heap2s ex_list2 =
   Some (Inr [(Some 1, 1), (Some 2, 3), (Some 3, 0), (Some 4, 7), (Some 5, 9)])"
  by (simp add: eval_defs ex_heap2s_def ex_heap2_def ex_list2_def)


lemma ex3_to_list:
  "to_list ex_heap3 ex_list3a = Some (Inr [1, 2, 3])"
  "to_list ex_heap3 ex_list3b = Some (Inr [1, 2, 4])"
  by (simp_all add: to_list_def eval_defs ex_heap3_def ex_heap3a_def ex_list3a_def ex_list3b_def)


theorem reachable_invariant_witness:
  "reachable_ordered ex_world2k \<and> (0::nat) < length (objs ex_world2k) \<and> sl_head (objs ex_world2k ! 0) = Some 0 \<and>
   to_list (heap ex_world2k) (objs ex_world2k ! 0) = Some (Inr [1, 3, 6, 7, 9]) \<and>
   (\<exists>as. lseg (heap ex_world2k) 0 (forward (heap ex_world2k ! 0) ! 0) as None \<and>
           distinct as \<and> 0 \<notin> set as \<and>
           sl_size (objs ex_world2k ! 0) = length as \<and>
           sorted_wrt (sl_comp (objs ex_world2k ! 0)) (map (key_at (heap ex_world2k)) as) \<and>
           (\<forall>a\<in>set as. \<forall>b\<in>set as. a \<noteq> b \<longrightarrow>
              \<not> equiv_keys (sl_comp (objs ex_world2k ! 0)) (key_at (heap ex_world2k) a)
                  (key_at (heap ex_world2k) b)) \<and>
           (\<forall>i\<le>sl_max_level (objs ex_world2k ! 0).
              lseg (heap ex_world2k) i (forward (heap ex_world2k ! 0) ! i)
                (at_level (heap ex_world2k) i as) None \<and>
              subseq (at_level (heap ex_world2k) i as) as \<and>
              sorted_wrt (sl_comp (objs ex_world2k ! 0))
                (map (key_at (heap ex_world2k)) (at_level (heap ex_world2k) i as))))"
proof -
  have a: "(0::nat) < length (objs ex_world2k)" "sl_head (objs ex_world2k ! 0) = Some 0"
    by (simp_all add: ex_world2k_def ex_list2_def)
  have t: "to_list (heap ex_world2k) (objs ex_world2k ! 0) = Some (Inr [1, 3, 6, 7, 9])"
    by (simp add: to_list_def eval_defs ex_world2k_def ex_heap2k_def ex_heap2_def ex_list2_def)
  from ex2k_reachable a t reachable_invariant [OF ex2k_reachable a] show ?thesis by blast
qed

text \<open>
  C2 as it is written. After \<^verbatim>\<open>skip_list<int> sl = {1, 3, 5, 7, 9}; *sl.find(5) = 0;\<close>, a
  sequence of operations of the public interface, the chain of level 0 from the head visits
  the keys 1, 3, 0, 7, 9, which is not ascending.
\<close>

theorem store_breaks_order_counterexample:
  "find_sl ex_heap2 ex_list2 5 = Some (Inr (Some 3)) \<and>
   reachable ex_world2s \<and>
   sl_head (objs ex_world2s ! 0) = Some 0 \<and>
   lseg (heap ex_world2s) 0 (forward (heap ex_world2s ! 0) ! 0) [1, 2, 3, 4, 5] None \<and>
   map (key_at (heap ex_world2s)) [1, 2, 3, 4, 5] = [1, 3, 0, 7, 9] \<and>
   to_list (heap ex_world2s) (objs ex_world2s ! 0) = Some (Inr [1, 3, 0, 7, 9]) \<and>
   \<not> sorted_wrt (sl_comp (objs ex_world2s ! 0)) [1, 3, 0, 7, 9]"
proof -
  have "lseg (heap ex_world2s) 0 (forward (heap ex_world2s ! 0) ! 0) [1, 2, 3, 4, 5] None"
    by (simp add: ex_world2s_def ex_heap2s_def ex_heap2_def)
  moreover have "map (key_at (heap ex_world2s)) [1, 2, 3, 4, 5] = [1, 3, 0, 7, 9]"
    by (simp add: key_at_def ex_world2s_def ex_heap2s_def ex_heap2_def)
  moreover have "to_list (heap ex_world2s) (objs ex_world2s ! 0) = Some (Inr [1, 3, 0, 7, 9])"
    using ex2s_positions by (simp add: to_list_def ex_world2s_def)
  ultimately show ?thesis
    using ex2_find ex2s_reachable by (simp add: ex_world2s_def ex_list2_def)
qed

theorem insert_existing_witness:
  "reachable_ordered ex_world2 \<and> (0::nat) < length (objs ex_world2) \<and>
   positions (heap ex_world2) (objs ex_world2 ! 0) =
     Some (Inr [(Some 1, 1), (Some 2, 3), (Some 3, 5), (Some 4, 7), (Some 5, 9)]) \<and>
   (Some 3, 5) \<in> set [(Some 1, 1), (Some 2, 3), (Some 3, 5), (Some 4, 7), (Some 5, 9 :: int)] \<and>
   equiv_keys (sl_comp (objs ex_world2 ! 0)) 5 5 \<and>
   insert_sl (heap ex_world2) (objs ex_world2 ! 0) 5 =
     Some (Inr (heap ex_world2, objs ex_world2 ! 0, Some 3, False)) \<and>
   emplace (heap ex_world2) (objs ex_world2 ! 0) 5 =
     Some (Inr (heap ex_world2, objs ex_world2 ! 0, Some 3, False))"
proof -
  have a: "(0::nat) < length (objs ex_world2)" by (simp add: ex_world2_def)
  have p: "positions (heap ex_world2) (objs ex_world2 ! 0) =
     Some (Inr [(Some 1, 1), (Some 2, 3), (Some 3, 5), (Some 4, 7), (Some 5, 9)])"
    using ex2_positions by (simp add: ex_world2_def)
  have m: "(Some 3, 5) \<in> set [(Some 1, 1), (Some 2, 3), (Some 3, 5), (Some 4, 7), (Some 5, 9 :: int)]"
    by simp
  have e: "equiv_keys (sl_comp (objs ex_world2 ! 0)) 5 5"
    by (simp add: equiv_keys_def ex_world2_def ex_list2_def)
  from ex2_reachable a p m e insert_existing [OF ex2_reachable a p m e] show ?thesis by blast
qed

text \<open>
  C3 as it is written. In the same state the iteration visits the key 3, and \<^verbatim>\<open>insert(3)\<close>
  does not find it: it inserts a second 3 after the 0 and returns \<^verbatim>\<open>inserted = true\<close>.
\<close>

theorem insert_after_store_counterexample:
  "reachable ex_world2s \<and>
   positions (heap ex_world2s) (objs ex_world2s ! 0) =
     Some (Inr [(Some 1, 1), (Some 2, 3), (Some 3, 0), (Some 4, 7), (Some 5, 9)]) \<and>
   equiv_keys (sl_comp (objs ex_world2s ! 0)) 3 3 \<and>
   find_sl (heap ex_world2s) (objs ex_world2s ! 0) 3 = Some (Inr None) \<and>
   insert_sl (heap ex_world2s) (objs ex_world2s ! 0) 3 =
     Some (Inr (ex_heap2t, ex_list2t, Some 6, True)) \<and>
   size_sl (objs ex_world2s ! 0) = 5 \<and> size_sl ex_list2t = 6 \<and>
   to_list ex_heap2t ex_list2t = Some (Inr [1, 3, 0, 3, 7, 9])"
proof -
  have "find_sl ex_heap2s ex_list2 3 = Some (Inr None)"
    by (simp add: find_sl_def find_impl_def eval_defs ex_heap2s_def ex_heap2_def ex_list2_def)
  moreover have "insert_sl ex_heap2s ex_list2 3 = Some (Inr (ex_heap2t, ex_list2t, Some 6, True))"
    by (simp add: eval_defs ex_heap2s_def ex_heap2_def ex_list2_def ex_heap2t_def ex_list2t_def
        eval_nat_numeral)
  moreover have "to_list ex_heap2t ex_list2t = Some (Inr [1, 3, 0, 3, 7, 9])"
    by (simp add: to_list_def eval_defs ex_heap2_def ex_heap2t_def ex_list2t_def)
  ultimately show ?thesis
    using ex2s_reachable ex2s_positions
    by (simp add: ex_world2s_def equiv_keys_def size_sl_def ex_list2_def ex_list2t_def)
qed

theorem bounds_first_positions_witness:
  "reachable_ordered ex_world2 \<and> (0::nat) < length (objs ex_world2) \<and> sl_head (objs ex_world2 ! 0) \<noteq> None \<and>
   lower_bound ex_heap2 ex_list2 2 = Some (Inr (Some 2)) \<and> iter_deref ex_heap2 (Some 2) = Inr 3 \<and>
   upper_bound ex_heap2 ex_list2 5 = Some (Inr (Some 4)) \<and> iter_deref ex_heap2 (Some 4) = Inr 7 \<and>
   upper_bound ex_heap2 ex_list2 9 = Some (Inr (end_sl ex_list2)) \<and>
   (\<exists>xs lo up r.
     positions (heap ex_world2) (objs ex_world2 ! 0) = Some (Inr xs) \<and>
     lo = first_pos (\<lambda>v. \<not> sl_comp (objs ex_world2 ! 0) v 5) xs \<and>
     up = first_pos (\<lambda>v. sl_comp (objs ex_world2 ! 0) 5 v) xs \<and>
     lower_bound (heap ex_world2) (objs ex_world2 ! 0) 5 = Some (Inr lo) \<and>
     upper_bound (heap ex_world2) (objs ex_world2 ! 0) 5 = Some (Inr up) \<and>
     equal_range (heap ex_world2) (objs ex_world2 ! 0) 5 = Some (Inr (lo, up)) \<and>
     collect (heap ex_world2) lo up [] = Some (Inr r) \<and> length r \<le> 1)"
proof -
  have a: "(0::nat) < length (objs ex_world2)" "sl_head (objs ex_world2 ! 0) \<noteq> None"
    by (simp_all add: ex_world2_def ex_list2_def)
  have e: "lower_bound ex_heap2 ex_list2 2 = Some (Inr (Some 2))"
    "iter_deref ex_heap2 (Some 2) = Inr 3"
    "upper_bound ex_heap2 ex_list2 5 = Some (Inr (Some 4))"
    "iter_deref ex_heap2 (Some 4) = Inr 7"
    "upper_bound ex_heap2 ex_list2 9 = Some (Inr (end_sl ex_list2))"
    by (simp_all add: lower_bound_def lower_bound_impl_def upper_bound_def upper_bound_impl_def
        eval_defs ex_heap2_def ex_list2_def)
  from ex2_reachable a e bounds_first_positions [OF ex2_reachable a, of 5] show ?thesis by blast
qed

text \<open>
  C4 as it is written. In the same state the first position whose value is not less than 2
  is the one of the key 3, and \<^verbatim>\<open>lower_bound(2)\<close> returns the position of the key 7.
\<close>

theorem bounds_after_store_counterexample:
  "reachable ex_world2s \<and>
   positions (heap ex_world2s) (objs ex_world2s ! 0) =
     Some (Inr [(Some 1, 1), (Some 2, 3), (Some 3, 0), (Some 4, 7), (Some 5, 9)]) \<and>
   sl_comp (objs ex_world2s ! 0) 1 2 \<and> \<not> sl_comp (objs ex_world2s ! 0) 3 2 \<and>
   lower_bound (heap ex_world2s) (objs ex_world2s ! 0) 2 = Some (Inr (Some 4)) \<and>
   iter_deref (heap ex_world2s) (Some 4) = Inr 7 \<and>
   equal_range (heap ex_world2s) (objs ex_world2s ! 0) 2 = Some (Inr (Some 4, Some 4))"
proof -
  have "lower_bound ex_heap2s ex_list2 2 = Some (Inr (Some 4))"
    by (simp add: lower_bound_def lower_bound_impl_def eval_defs ex_heap2s_def ex_heap2_def
        ex_list2_def)
  moreover have "equal_range ex_heap2s ex_list2 2 = Some (Inr (Some 4, Some 4))"
    by (simp add: equal_range_def lower_bound_def lower_bound_impl_def upper_bound_def
        upper_bound_impl_def eval_defs ex_heap2s_def ex_heap2_def ex_list2_def)
  moreover have "iter_deref ex_heap2s (Some 4) = Inr 7"
    by (simp add: eval_defs ex_heap2s_def ex_heap2_def)
  ultimately show ?thesis
    using ex2s_reachable ex2s_positions by (simp add: ex_world2s_def ex_list2_def)
qed

theorem equality_and_ordering_witness:
  "(strict_weak_order ((<) :: int \<Rightarrow> int \<Rightarrow> bool) \<and>
    \<not> (\<exists>x y :: int. equiv_keys (<) x y \<and> x \<noteq> y) \<and>
    mset [3, 1, 4, 1, 5 :: int] = mset [5, 4, 3, 1, 1]) \<and>
   eq_after_inserts [] 0 (<) (sconst (1 / 2)) (cycle [1 / 10, 9 / 10, 9 / 10])
     [3, 1, 4, 1, 5 :: int] [5, 4, 3, 1, 1] = Some (Inr True) \<and>
   (to_list ex_heap3 ex_list3a = Some (Inr [1, 2, 3]) \<and>
    to_list ex_heap3 ex_list3b = Some (Inr [1, 2, 4]) \<and>
    size_sl ex_list3a = length [1, 2, 3 :: int] \<and> size_sl ex_list3b = length [1, 2, 4 :: int]) \<and>
   lex_less (<) [1, 2, 3 :: int] [1, 2, 4] \<and> \<not> lex_less (<) [1, 2, 4 :: int] [1, 2, 3] \<and>
   op_less (<) ex_heap3 ex_list3a ex_list3b = Some (Inr (lex_less (<) [1, 2, 3 :: int] [1, 2, 4])) \<and>
   op_less_eq (<) ex_heap3 ex_list3a ex_list3b = Some (Inr (\<not> lex_less (<) [1, 2, 4 :: int] [1, 2, 3])) \<and>
   op_greater (<) ex_heap3 ex_list3a ex_list3b = Some (Inr (lex_less (<) [1, 2, 4 :: int] [1, 2, 3])) \<and>
   op_greater_eq (<) ex_heap3 ex_list3a ex_list3b = Some (Inr (\<not> lex_less (<) [1, 2, 3 :: int] [1, 2, 4])) \<and>
   op_eq ex_heap3 ex_list3a ex_list3b = Some (Inr ([1, 2, 3] = [1, 2, 4 :: int])) \<and>
   op_neq ex_heap3 ex_list3a ex_list3b = Some (Inr ([1, 2, 3] \<noteq> [1, 2, 4 :: int])) \<and>
   (reachable_ordered ex_world3 \<and> (1::nat) < length (objs ex_world3) \<and>
    sl_head (objs ex_world3 ! 1) \<noteq> None) \<and>
   (\<exists>vs. to_list (heap ex_world3) (objs ex_world3 ! 1) = Some (Inr vs) \<and>
         size_sl (objs ex_world3 ! 1) = length vs)"
proof -
  have h1: "strict_weak_order ((<) :: int \<Rightarrow> int \<Rightarrow> bool) \<and>
    (\<forall>x y :: int. equiv_keys (<) x y \<longrightarrow> x = y) \<and>
    mset [3, 1, 4, 1, 5 :: int] = mset [5, 4, 3, 1, 1]"
    using int_less_swo by (auto simp: equiv_keys_def)
  have h2: "to_list ex_heap3 ex_list3a = Some (Inr [1, 2, 3]) \<and>
    to_list ex_heap3 ex_list3b = Some (Inr [1, 2, 4])"
    using ex3_to_list by simp
  have h3: "to_list ex_heap3 ex_list3a = Some (Inr [1, 2, 3]) \<and>
    to_list ex_heap3 ex_list3b = Some (Inr [1, 2, 4]) \<and>
    size_sl ex_list3a = length [1, 2, 3 :: int] \<and> size_sl ex_list3b = length [1, 2, 4 :: int]"
    using ex3_to_list by (simp add: size_sl_def ex_list3a_def ex_list3b_def)
  have h4: "reachable_ordered ex_world3 \<and> (1::nat) < length (objs ex_world3) \<and>
    sl_head (objs ex_world3 ! 1) \<noteq> None"
    using ex3_reachable by (simp add: ex_world3_def ex_list3b_def)
  have l: "lex_less (<) [1, 2, 3 :: int] [1, 2, 4]" "\<not> lex_less (<) [1, 2, 4 :: int] [1, 2, 3]"
    by simp_all
  note t = equality_and_ordering [where cmp = "(<)" and ?ks1.0 = "[3, 1, 4, 1, 5]" and
      ?ks2.0 = "[5, 4, 3, 1, 1]" and ?h0.0 = "[]" and d = 0 and ?g1.0 = "sconst (1 / 2)" and
      ?g2.0 = "cycle [1 / 10, 9 / 10, 9 / 10]" and h = ex_heap3 and lhs = ex_list3a and
      rhs = ex_list3b and xs = "[1, 2, 3]" and ys = "[1, 2, 4]" and lt = "(<)" and
      w = ex_world3 and j = 1]
  note r1 = t [THEN conjunct1, THEN mp, OF h1]
  note r2 = t [THEN conjunct2, THEN conjunct1, THEN mp, OF h2]
  note r3 = t [THEN conjunct2, THEN conjunct2, THEN conjunct1, THEN mp, OF h3]
  note r4 = t [THEN conjunct2, THEN conjunct2, THEN conjunct2, THEN mp, OF h4]
  have h1': "\<not> (\<exists>x y :: int. equiv_keys (<) x y \<and> x \<noteq> y)" using h1 by blast
  show ?thesis
    apply (intro conjI)
    using h1 h1' h3 h4 l r1 r2 r3 r4 apply simp_all
    done
qed

end
